theory Spec2Isabelle
  imports Main "HOL-Library.Multiset"
begin

section \<open>Strings\<close>

text \<open>
  The analyzer (\<^verbatim>\<open>src/unnamed/part_006\<close>, imported by its callers as
  \<^verbatim>\<open>utils/analyzer.js\<close>) works on JavaScript strings. A string is modelled as a
  \<^typ>\<open>string\<close>, each \<^typ>\<open>char\<close> standing for one UTF-16 code unit below 256 (the
  Latin-1 range, which holds ASCII). All patterns of the program are ASCII.
\<close>

abbreviation sq :: char where "sq \<equiv> CHR 0x27"
abbreviation dq :: char where "dq \<equiv> CHR 0x22"

definition code_unit :: "char \<Rightarrow> nat" where
  "code_unit c = of_char c"

text \<open>\<^verbatim>\<open>String.prototype.toLowerCase\<close> on code units below 256: A-Z and the
  Latin-1 capitals U+00C0..U+00DE (but the multiplication sign U+00D7) move up by 32,
  which sets bit 5; every other code unit is unchanged.\<close>

definition is_upper :: "char \<Rightarrow> bool" where
  "is_upper c = (let n = code_unit c in
     (65 \<le> n \<and> n \<le> 90) \<or> (192 \<le> n \<and> n \<le> 222 \<and> n \<noteq> 215))"

definition to_lower_char :: "char \<Rightarrow> char" where
  "to_lower_char c =
     (if is_upper c
      then (case c of Char b0 b1 b2 b3 b4 b5 b6 b7 \<Rightarrow> Char b0 b1 b2 b3 b4 True b6 b7)
      else c)"

definition toLowerCase :: "string \<Rightarrow> string" where
  "toLowerCase s = map to_lower_char s"

text \<open>\<^verbatim>\<open>s.startsWith(p)\<close> and \<^verbatim>\<open>s.includes(p)\<close>.\<close>

fun startsWith :: "string \<Rightarrow> string \<Rightarrow> bool" where
  "startsWith s [] = True"
| "startsWith [] (c # p) = False"
| "startsWith (x # s) (c # p) = (x = c \<and> startsWith s p)"

fun str_includes :: "string \<Rightarrow> string \<Rightarrow> bool" where
  "str_includes [] p = (p = [])"
| "str_includes (x # s) p = (startsWith (x # s) p \<or> str_includes s p)"

text \<open>\<^verbatim>\<open>s.split("\n")\<close>: the pieces between line feeds; the empty string gives one
  empty piece.\<close>

fun split_acc :: "char \<Rightarrow> string \<Rightarrow> string \<Rightarrow> string list" where
  "split_acc d acc [] = [rev acc]"
| "split_acc d acc (x # s) =
     (if x = d then rev acc # split_acc d [] s else split_acc d (x # acc) s)"

definition split_lines :: "string \<Rightarrow> string list" where
  "split_lines s = split_acc CHR ''\<newline>'' [] s"

text \<open>\<^verbatim>\<open>xs.findIndex(pred)\<close>: the index of the first element that satisfies the
  predicate, or -1.\<close>

fun findIndex_from :: "int \<Rightarrow> ('a \<Rightarrow> bool) \<Rightarrow> 'a list \<Rightarrow> int" where
  "findIndex_from i P [] = -1"
| "findIndex_from i P (x # xs) = (if P x then i else findIndex_from (i + 1) P xs)"

definition findIndex :: "('a \<Rightarrow> bool) \<Rightarrow> 'a list \<Rightarrow> int" where
  "findIndex P xs = findIndex_from 0 P xs"

text \<open>The decimal text of an integer, as a template literal prints a number.\<close>

definition digit_char :: "nat \<Rightarrow> char" where
  "digit_char d = (''0123456789'' ! d)"

function show_nat :: "nat \<Rightarrow> string" where
  "show_nat n = (if n < 10 then [digit_char n] else show_nat (n div 10) @ [digit_char (n mod 10)])"
  by pat_completeness auto
termination
  by (relation "measure id") auto

definition show_int :: "int \<Rightarrow> string" where
  "show_int i = (if i < 0 then CHR ''-'' # show_nat (nat (- i)) else show_nat (nat i))"

section \<open>Regular expressions\<close>

text \<open>
  The analyzer's parsing is done by regular-expression literals. They are modelled by a
  datatype of patterns and a backtracking matcher that follows the ECMAScript semantics:
  the matcher returns every way a pattern can match at a position, in the order in which
  the backtracking engine tries them, so the head of the list is the match the engine
  reports.
\<close>

datatype cclass =
    Space               \<comment> \<open>\<^verbatim>\<open>\s\<close>\<close>
  | WordC               \<comment> \<open>\<^verbatim>\<open>\w\<close>\<close>
  | Digit               \<comment> \<open>\<^verbatim>\<open>\d\<close>\<close>
  | AnyC                \<comment> \<open>\<^verbatim>\<open>[\s\S]\<close>\<close>
  | Dot                 \<comment> \<open>\<^verbatim>\<open>.\<close>\<close>
  | OneOf string        \<comment> \<open>\<^verbatim>\<open>[abc]\<close>\<close>
  | NoneOf string       \<comment> \<open>\<^verbatim>\<open>[^abc]\<close>\<close>

definition is_space :: "char \<Rightarrow> bool" where
  "is_space c = (code_unit c \<in> {9, 10, 11, 12, 13, 32, 160})"

definition is_digit :: "char \<Rightarrow> bool" where
  "is_digit c = (let n = code_unit c in 48 \<le> n \<and> n \<le> 57)"

definition is_word :: "char \<Rightarrow> bool" where
  "is_word c = (let n = code_unit c in
     (97 \<le> n \<and> n \<le> 122) \<or> (65 \<le> n \<and> n \<le> 90) \<or> (48 \<le> n \<and> n \<le> 57) \<or> n = 95)"

definition is_line_terminator :: "char \<Rightarrow> bool" where
  "is_line_terminator c = (code_unit c \<in> {10, 13})"

text \<open>Canonicalisation under the \<^verbatim>\<open>i\<close> flag folds the ASCII letters; a code unit of
  128 or more is never folded onto an ASCII one, so against ASCII patterns it is left
  alone.\<close>

definition canon :: "bool \<Rightarrow> char \<Rightarrow> char" where
  "canon ci c = (if ci \<and> code_unit c < 128 then to_lower_char c else c)"

fun in_class :: "bool \<Rightarrow> cclass \<Rightarrow> char \<Rightarrow> bool" where
  "in_class ci Space c = is_space c"
| "in_class ci WordC c = is_word c"
| "in_class ci Digit c = is_digit c"
| "in_class ci AnyC c = True"
| "in_class ci Dot c = (\<not> is_line_terminator c)"
| "in_class ci (OneOf cs) c = (canon ci c \<in> set (map (canon ci) cs))"
| "in_class ci (NoneOf cs) c = (canon ci c \<notin> set (map (canon ci) cs))"

datatype regex =
    Eps
  | Chr char                 \<comment> \<open>a literal character\<close>
  | Cls cclass               \<comment> \<open>a character class\<close>
  | Seq regex regex          \<comment> \<open>\<^verbatim>\<open>ab\<close>\<close>
  | Alt regex regex          \<comment> \<open>\<^verbatim>\<open>a|b\<close>\<close>
  | Star bool regex          \<comment> \<open>\<^verbatim>\<open>a*\<close> (greedy, \<open>True\<close>) and \<^verbatim>\<open>a*?\<close> (lazy, \<open>False\<close>)\<close>
  | Group nat regex          \<comment> \<open>the capture group of that number\<close>
  | WordB                    \<comment> \<open>\<^verbatim>\<open>\b\<close>\<close>
  | Eol                      \<comment> \<open>\<^verbatim>\<open>$\<close> (no \<^verbatim>\<open>m\<close> flag)\<close>
  | NegLook regex            \<comment> \<open>\<^verbatim>\<open>(?!a)\<close>\<close>

text \<open>A literal string, a sequence, \<^verbatim>\<open>a+\<close>, \<^verbatim>\<open>a+?\<close>, \<^verbatim>\<open>a?\<close> and \<^verbatim>\<open>a{2}\<close>. The
  program only repeats single characters and classes, for which \<^verbatim>\<open>a+\<close> is \<^verbatim>\<open>aa*\<close>.\<close>

fun Str :: "string \<Rightarrow> regex" where
  "Str [] = Eps"
| "Str (c # cs) = Seq (Chr c) (Str cs)"

fun Seqs :: "regex list \<Rightarrow> regex" where
  "Seqs [] = Eps"
| "Seqs (r # rs) = Seq r (Seqs rs)"

definition Plus :: "bool \<Rightarrow> regex \<Rightarrow> regex" where
  "Plus g r = Seq r (Star g r)"

definition Opt :: "regex \<Rightarrow> regex" where
  "Opt r = Alt r Eps"

definition Twice :: "regex \<Rightarrow> regex" where
  "Twice r = Seq r r"

text \<open>The capture groups inside a pattern: a repetition clears them at the start of
  each iteration.\<close>

fun groups :: "regex \<Rightarrow> nat list" where
  "groups (Seq a b) = groups a @ groups b"
| "groups (Alt a b) = groups a @ groups b"
| "groups (Star g r) = groups r"
| "groups (Group i r) = i # groups r"
| "groups (NegLook r) = groups r"
| "groups r = []"

type_synonym captures = "nat \<rightharpoonup> string"

definition reset :: "nat list \<Rightarrow> captures \<Rightarrow> captures" where
  "reset is cp = (\<lambda>i. if i \<in> set is then None else cp i)"

text \<open>A matcher state: the character before the position (for \<^verbatim>\<open>\b\<close>), the rest of
  the input from the position on, and the captures so far.\<close>

type_synonym mstate = "char option \<times> string \<times> captures"

definition word_before :: "char option \<Rightarrow> bool" where
  "word_before p = (case p of None \<Rightarrow> False | Some c \<Rightarrow> is_word c)"

definition word_after :: "string \<Rightarrow> bool" where
  "word_after xs = (case xs of [] \<Rightarrow> False | x # _ \<Rightarrow> is_word x)"

function ms :: "bool \<Rightarrow> regex \<Rightarrow> mstate \<Rightarrow> mstate list" where
  "ms ci Eps st = [st]"
| "ms ci (Chr c) (p, xs, cp) =
     (case xs of [] \<Rightarrow> []
      | x # xs' \<Rightarrow> if canon ci x = canon ci c then [(Some x, xs', cp)] else [])"
| "ms ci (Cls k) (p, xs, cp) =
     (case xs of [] \<Rightarrow> []
      | x # xs' \<Rightarrow> if in_class ci k x then [(Some x, xs', cp)] else [])"
| "ms ci (Seq a b) st = concat (map (ms ci b) (ms ci a st))"
| "ms ci (Alt a b) st = ms ci a st @ ms ci b st"
| "ms ci (Star g r) (p, xs, cp) =
     (let more = concat (map (ms ci (Star g r))
                   (filter (\<lambda>st'. length (fst (snd st')) < length xs)
                      (ms ci r (p, xs, reset (groups r) cp))))
      in if g then more @ [(p, xs, cp)] else (p, xs, cp) # more)"
| "ms ci (Group i r) (p, xs, cp) =
     map (\<lambda>(p', xs', cp'). (p', xs', cp'(i \<mapsto> take (length xs - length xs') xs)))
       (ms ci r (p, xs, cp))"
| "ms ci WordB (p, xs, cp) = (if word_before p \<noteq> word_after xs then [(p, xs, cp)] else [])"
| "ms ci Eol (p, xs, cp) = (if xs = [] then [(p, xs, cp)] else [])"
| "ms ci (NegLook r) st = (if ms ci r st = [] then [st] else [])"
  by pat_completeness auto
termination
  by (relation "measures [\<lambda>(ci, r, st). size r, \<lambda>(ci, r, p, xs, cp). length xs]") auto


text \<open>The equation of a repetition mentions the repetition again: it is unfolded by hand.\<close>

declare ms.simps(6) [simp del]

text \<open>Every result of the matcher leaves a suffix of the input it started from.\<close>

lemma ms_suffix:
  "st' \<in> set (ms ci r st) \<Longrightarrow> \<exists>ys. fst (snd st) = ys @ fst (snd st')"
proof (induction ci r st arbitrary: st' rule: ms.induct)
  case (1 ci st)
  then show ?case by simp
next
  case (2 ci c p xs cp)
  then show ?case by (cases xs) (auto split: if_splits)
next
  case (3 ci k p xs cp)
  then show ?case by (cases xs) (auto split: if_splits)
next
  case (4 ci a b st)
  then obtain st1 where a: "st1 \<in> set (ms ci a st)" and b: "st' \<in> set (ms ci b st1)"
    by auto
  from 4(1)[OF a] obtain ys where "fst (snd st) = ys @ fst (snd st1)" by blast
  moreover from 4(2)[OF a b] obtain zs where "fst (snd st1) = zs @ fst (snd st')" by blast
  ultimately show ?case by simp
next
  case (5 ci a b st)
  from 5(3) have "st' \<in> set (ms ci a st) \<or> st' \<in> set (ms ci b st)" by simp
  then show ?case using 5(1) 5(2) by blast
next
  case (6 ci g r p xs cp)
  show ?case
  proof (cases "st' = (p, xs, cp)")
    case True
    then show ?thesis by simp
  next
    case False
    have "set (ms ci (Star g r) (p, xs, cp)) =
      insert (p, xs, cp) (\<Union>st1 \<in> {s \<in> set (ms ci r (p, xs, reset (groups r) cp)).
         length (fst (snd s)) < length xs}. set (ms ci (Star g r) st1))"
      by (subst ms.simps(6)) (simp add: Let_def)
    with False 6(3) obtain st1 where a: "st1 \<in> set (ms ci r (p, xs, reset (groups r) cp))"
      and l: "length (fst (snd st1)) < length xs"
      and b: "st' \<in> set (ms ci (Star g r) st1)"
      by blast
    from 6(1)[OF a] obtain ys where "xs = ys @ fst (snd st1)" by auto
    moreover from 6(2)[OF _ b] a l obtain zs where "fst (snd st1) = zs @ fst (snd st')"
      by simp blast
    ultimately show ?thesis by simp
  qed
next
  case (7 ci i r p xs cp)
  from 7(2) obtain st1 where a: "st1 \<in> set (ms ci r (p, xs, cp))"
    and e: "fst (snd st') = fst (snd st1)"
    by (auto simp: split_def)
  from 7(1)[OF a] e show ?case by simp
next
  case (8 ci p xs cp)
  then show ?case by (auto split: if_splits)
next
  case (9 ci p xs cp)
  then show ?case by (auto split: if_splits)
next
  case (10 ci r st)
  then show ?case by (auto split: if_splits)
qed

lemma ms_length:
  "(p', xs', cp') \<in> set (ms ci r (p, xs, cp)) \<Longrightarrow> length xs' \<le> length xs"
  using ms_suffix[of "(p', xs', cp')" ci r "(p, xs, cp)"] by auto

subsection \<open>The string methods that take a pattern\<close>

text \<open>A successful match: the matched text (\<^verbatim>\<open>m[0]\<close>), the capture groups
  (\<^verbatim>\<open>m[i]\<close>, \<open>None\<close> for \<^verbatim>\<open>undefined\<close>), and where the match ended.\<close>

record rmatch =
  m_text :: string
  m_groups :: captures
  m_prev :: "char option"
  m_rest :: string

definition mk_match :: "string \<Rightarrow> mstate \<Rightarrow> rmatch" where
  "mk_match xs st = (case st of (p', xs', cp) \<Rightarrow>
     \<lparr>m_text = take (length xs - length xs') xs, m_groups = cp, m_prev = p', m_rest = xs'\<rparr>)"

text \<open>\<^verbatim>\<open>RegExp.prototype.exec\<close>: the first position, from the left, at which the
  pattern matches, with the first way of matching there.\<close>

fun search :: "bool \<Rightarrow> regex \<Rightarrow> char option \<Rightarrow> string \<Rightarrow> rmatch option" where
  "search ci r p [] =
     (case ms ci r (p, [], Map.empty) of [] \<Rightarrow> None | st # _ \<Rightarrow> Some (mk_match [] st))"
| "search ci r p (x # xs) =
     (case ms ci r (p, x # xs, Map.empty) of
        [] \<Rightarrow> search ci r (Some x) xs
      | st # _ \<Rightarrow> Some (mk_match (x # xs) st))"

text \<open>\<^verbatim>\<open>s.match(re)\<close> for a pattern without the \<^verbatim>\<open>g\<close> flag.\<close>

definition str_match :: "bool \<Rightarrow> regex \<Rightarrow> string \<Rightarrow> rmatch option" where
  "str_match ci r s = search ci r None s"

lemma search_rest_length:
  "search ci r p xs = Some m \<Longrightarrow> length (m_rest m) \<le> length xs"
proof (induction xs arbitrary: p)
  case Nil
  show ?case
  proof (cases "ms ci r (p, [], Map.empty)")
    case Nil
    with Nil.prems show ?thesis by simp
  next
    case (Cons st sts)
    obtain p' xs' cp' where st: "st = (p', xs', cp')" by (cases st)
    have "(p', xs', cp') \<in> set (ms ci r (p, [], Map.empty))"
      using Cons st by simp
    then have "length xs' \<le> length ([]::string)" by (rule ms_length)
    with Cons st Nil.prems show ?thesis by (auto simp: mk_match_def)
  qed
next
  case (Cons x xs)
  show ?case
  proof (cases "ms ci r (p, x # xs, Map.empty)")
    case Nil
    with Cons show ?thesis by fastforce
  next
    case (Cons st sts)
    obtain p' xs' cp' where st: "st = (p', xs', cp')" by (cases st)
    have "(p', xs', cp') \<in> set (ms ci r (p, x # xs, Map.empty))"
      using Cons st by simp
    then have "length xs' \<le> length (x # xs)" by (rule ms_length)
    with Cons st Cons.prems show ?thesis by (auto simp: mk_match_def)
  qed
qed

lemma search_text_rest_length:
  "search ci r p xs = Some m \<Longrightarrow> m_text m \<noteq> [] \<Longrightarrow> length (m_rest m) < length xs"
proof (induction xs arbitrary: p)
  case Nil
  then show ?case by (auto simp: mk_match_def split: list.splits)
next
  case (Cons x xs)
  show ?case
  proof (cases "ms ci r (p, x # xs, Map.empty)")
    case Nil
    with Cons show ?thesis by fastforce
  next
    case (Cons st sts)
    obtain p' xs' cp' where st: "st = (p', xs', cp')" by (cases st)
    with Cons Cons.prems show ?thesis by (auto simp: mk_match_def)
  qed
qed

text \<open>\<^verbatim>\<open>s.matchAll(re)\<close>, and \<^verbatim>\<open>s.match(re)\<close> with the \<^verbatim>\<open>g\<close> flag: the matches
  from left to right, each search starting where the last match ended, one character
  further after an empty match.\<close>

function matchAll_from :: "bool \<Rightarrow> regex \<Rightarrow> char option \<Rightarrow> string \<Rightarrow> rmatch list" where
  "matchAll_from ci r p xs =
     (case search ci r p xs of
        None \<Rightarrow> []
      | Some m \<Rightarrow>
          m # (if m_text m \<noteq> [] then matchAll_from ci r (m_prev m) (m_rest m)
               else (case m_rest m of
                       [] \<Rightarrow> []
                     | y # ys \<Rightarrow> matchAll_from ci r (Some y) ys)))"
  by pat_completeness auto
termination
proof (relation "measure (\<lambda>(ci, r, p, xs). length xs)", goal_cases)
  case 1
  show ?case by simp
next
  case (2 ci r p xs m)
  then show ?case using search_text_rest_length[of ci r p xs m] by simp
next
  case (3 ci r p xs m y ys)
  then show ?case using search_rest_length[of ci r p xs m] by simp
qed

declare matchAll_from.simps [simp del]

definition matchAll :: "bool \<Rightarrow> regex \<Rightarrow> string \<Rightarrow> rmatch list" where
  "matchAll ci r s = matchAll_from ci r None s"

definition match_g :: "bool \<Rightarrow> regex \<Rightarrow> string \<Rightarrow> string list option" where
  "match_g ci r s = (case matchAll ci r s of [] \<Rightarrow> None | m # ms' \<Rightarrow> Some (map m_text (m # ms')))"

text \<open>\<^verbatim>\<open>s.split(re)\<close> for a pattern without capture groups: the pattern is tried at
  each position \<open>q\<close> in turn; a match that ends where the current piece began is passed
  over, any other match closes the piece and the scan goes on from its end.\<close>

function split_re_from :: "bool \<Rightarrow> regex \<Rightarrow> char option \<Rightarrow> string \<Rightarrow> string \<Rightarrow> string list" where
  "split_re_from ci r p acc [] = [rev acc]"
| "split_re_from ci r p acc (x # xs) =
     (case ms ci r (p, x # xs, Map.empty) of
        [] \<Rightarrow> split_re_from ci r (Some x) (x # acc) xs
      | (p', ys, cp) # _ \<Rightarrow>
          if length ys < length (x # xs) then rev acc # split_re_from ci r p' [] ys
          else if acc = [] then split_re_from ci r (Some x) (x # acc) xs
          else rev acc # split_re_from ci r p [] (x # xs))"
  by pat_completeness auto
termination
  by (relation "measures [\<lambda>(ci, r, p, acc, xs). length xs, \<lambda>(ci, r, p, acc, xs). length acc]")
    auto

definition split_re :: "bool \<Rightarrow> regex \<Rightarrow> string \<Rightarrow> string list" where
  "split_re ci r s =
     (if s = [] then (if ms ci r (None, [], Map.empty) = [] then [[]] else [])
      else split_re_from ci r None [] s)"

text \<open>\<^verbatim>\<open>s.trim()\<close>.\<close>

definition trim :: "string \<Rightarrow> string" where
  "trim s = rev (dropWhile is_space (rev (dropWhile is_space s)))"


section \<open>The data model\<close>

datatype model_type = staging | intermediate | fact | dimension | snapshot | unknown

text \<open>The string of each type, as the source writes it.\<close>

fun type_name :: "model_type \<Rightarrow> string" where
  "type_name staging = ''staging''"
| "type_name intermediate = ''intermediate''"
| "type_name fact = ''fact''"
| "type_name dimension = ''dimension''"
| "type_name snapshot = ''snapshot''"
| "type_name unknown = ''unknown''"

datatype severity = critical | high | medium | low

fun severity_name :: "severity \<Rightarrow> string" where
  "severity_name critical = ''critical''"
| "severity_name high = ''high''"
| "severity_name medium = ''medium''"
| "severity_name low = ''low''"

text \<open>The values of \<^verbatim>\<open>config: Record<string, unknown>\<close> that \<^verbatim>\<open>parseModel\<close> stores:
  a string, or \<^verbatim>\<open>undefined\<close>.\<close>

datatype jsval = Undefined | JStr string

fun truthy :: "jsval \<Rightarrow> bool" where
  "truthy Undefined = False"
| "truthy (JStr s) = (s \<noteq> [])"

text \<open>\<^verbatim>\<open>obj.key\<close> on a plain object: \<^verbatim>\<open>undefined\<close> when the key is absent.\<close>

definition get_prop :: "(string \<rightharpoonup> jsval) \<Rightarrow> string \<Rightarrow> jsval" where
  "get_prop obj k = (case obj k of None \<Rightarrow> Undefined | Some v \<Rightarrow> v)"

text \<open>\<^verbatim>\<open>obj[key] = v\<close> on a plain object: the inherited setter of \<^verbatim>\<open>__proto__\<close>
  ignores a value that is neither an object nor null.\<close>

definition set_prop :: "(string \<rightharpoonup> jsval) \<Rightarrow> string \<Rightarrow> jsval \<Rightarrow> (string \<rightharpoonup> jsval)" where
  "set_prop obj k v = (if k = ''__proto__'' then obj else obj(k \<mapsto> v))"

text \<open>The interface \<^verbatim>\<open>Issue\<close>. The field \<^verbatim>\<open>fix\<close> is named \<open>fix_text\<close>, \<open>fix\<close> being
  a keyword.\<close>

record Issue =
  pattern :: string
  severity :: severity
  location :: string
  fix_text :: string
  explanation :: string
  line :: "int option"

text \<open>The interface \<^verbatim>\<open>ParsedModel\<close>; a source is a pair of schema and table.\<close>

record ParsedModel =
  name :: string
  type :: model_type
  materialization :: "string option"
  config :: "string \<rightharpoonup> jsval"
  refs :: "string list"
  sources :: "(string \<times> string) list"
  columns :: "string list"
  hasTests :: bool
  cteCount :: int
  lineCount :: int

text \<open>The element type of \<^verbatim>\<open>issues\<close> in the result of \<^verbatim>\<open>reviewCode\<close>, and the result.\<close>

record ReviewIssue =
  r_severity :: string
  title :: string
  description :: string
  suggestion :: string
  r_line :: "int option"

datatype verdict = approve | request_changes | comment

record ReviewResult =
  score :: int
  overall :: verdict
  strengths :: "string list"
  issues :: "ReviewIssue list"

section \<open>The patterns of the analyzer\<close>

abbreviation ws :: regex where "ws \<equiv> Star True (Cls Space)"
abbreviation quote :: regex where "quote \<equiv> Cls (OneOf [sq, dq])"
abbreviation unquoted :: regex where "unquoted \<equiv> Plus True (Cls (NoneOf [sq, dq]))"
abbreviation word :: regex where "word \<equiv> Plus True (Cls WordC)"

text \<open>\<^verbatim>\<open>/\{\{\s*config\s*\(([\s\S]*?)\)\s*\}\}/\<close>\<close>

definition config_re :: regex where
  "config_re = Seqs [Str ''{{'', ws, Str ''config'', ws, Chr CHR ''('',
     Group 1 (Star False (Cls AnyC)), Chr CHR '')'', ws, Str ''}}'']"

text \<open>\<^verbatim>\<open>/materialized\s*=\s*['"](\w+)['"]/\<close>\<close>

definition materialized_re :: regex where
  "materialized_re = Seqs [Str ''materialized'', ws, Chr CHR ''='', ws, quote,
     Group 1 word, quote]"

text \<open>\<^verbatim>\<open>/(\w+)\s*=\s*(['"]([^'"]+)['"]|(\w+))/g\<close>\<close>

definition kv_re :: regex where
  "kv_re = Seqs [Group 1 word, ws, Chr CHR ''='', ws,
     Group 2 (Alt (Seqs [quote, Group 3 unquoted, quote]) (Group 4 word))]"

text \<open>\<^verbatim>\<open>/\{\{\s*ref\(['"]([^'"]+)['"]\)\s*\}\}/g\<close>\<close>

definition ref_re :: regex where
  "ref_re = Seqs [Str ''{{'', ws, Str ''ref('', quote, Group 1 unquoted, quote,
     Chr CHR '')'', ws, Str ''}}'']"

text \<open>\<^verbatim>\<open>/\{\{\s*source\(['"]([^'"]+)['"],\s*['"]([^'"]+)['"]\)\s*\}\}/g\<close>\<close>

definition source_re :: regex where
  "source_re = Seqs [Str ''{{'', ws, Str ''source('', quote, Group 1 unquoted, quote,
     Chr CHR '','', ws, quote, Group 2 unquoted, quote, Chr CHR '')'', ws, Str ''}}'']"

text \<open>\<^verbatim>\<open>/\bwith\b/gi\<close> and \<^verbatim>\<open>/\),\s*\w+\s+as\s*\(/gi\<close>\<close>

definition with_re :: regex where
  "with_re = Seqs [WordB, Str ''with'', WordB]"

definition cte_re :: regex where
  "cte_re = Seqs [Str ''),'', ws, word, Plus True (Cls Space), Str ''as'', ws, Chr CHR ''('']"

text \<open>\<^verbatim>\<open>/select\s+([\s\S]+?)\s+from/i\<close>\<close>

definition select_re :: regex where
  "select_re = Seqs [Str ''select'', Plus True (Cls Space), Group 1 (Plus False (Cls AnyC)),
     Plus True (Cls Space), Str ''from'']"

text \<open>\<^verbatim>\<open>/,(?![^(]*\))/\<close>\<close>

definition comma_re :: regex where
  "comma_re = Seqs [Chr CHR '','',
     NegLook (Seqs [Star True (Cls (NoneOf ''('')), Chr CHR '')''])]"

text \<open>\<^verbatim>\<open>/(?:as\s+)?(\w+)\s*$/i\<close>\<close>

definition alias_re :: regex where
  "alias_re = Seqs [Opt (Seqs [Str ''as'', Plus True (Cls Space)]), Group 1 word, ws, Eol]"

text \<open>\<^verbatim>\<open>/'(20\d{2}-\d{2}-\d{2})'/\<close>\<close>

definition date_body :: regex where
  "date_body = Seqs [Str ''20'', Twice (Cls Digit), Chr CHR ''-'', Twice (Cls Digit),
     Chr CHR ''-'', Twice (Cls Digit)]"

definition date_re :: regex where
  "date_re = Seqs [Chr sq, Group 1 date_body, Chr sq]"

text \<open>\<^verbatim>\<open>/where\s+(\w+)\(.*?\)\s*=/i\<close> and \<^verbatim>\<open>/on\s+(\w+)\(.*?\)\s*=/i\<close>\<close>

definition where_func_re :: regex where
  "where_func_re = Seqs [Str ''where'', Plus True (Cls Space), Group 1 word, Chr CHR ''('',
     Star False (Cls Dot), Chr CHR '')'', ws, Chr CHR ''='']"

definition on_func_re :: regex where
  "on_func_re = Seqs [Str ''on'', Plus True (Cls Space), Group 1 word, Chr CHR ''('',
     Star False (Cls Dot), Chr CHR '')'', ws, Chr CHR ''='']"


section \<open>\<^verbatim>\<open>parseModel\<close>\<close>

text \<open>
  The source has no \<^verbatim>\<open>throw\<close>. What could fail at run time is a method call on a
  capture group that is \<^verbatim>\<open>undefined\<close> (\<open>TypeError\<close>); and a group that is
  \<^verbatim>\<open>undefined\<close> where the interface declares a string would be stored as it is,
  which the model, whose fields are typed, reports as \<open>NotAString\<close>.
\<close>

datatype error = TypeError | NotAString

definition group_str :: "rmatch \<Rightarrow> nat \<Rightarrow> error + string" where
  "group_str m i = (case m_groups m i of None \<Rightarrow> Inl NotAString | Some s \<Rightarrow> Inr s)"

text \<open>A loop \<^verbatim>\<open>for (const match of ...) out.push(f(match))\<close>.\<close>

fun collect :: "('a \<Rightarrow> error + 'b) \<Rightarrow> 'a list \<Rightarrow> error + 'b list" where
  "collect f [] = Inr []"
| "collect f (x # xs) =
     (case f x of
        Inl e \<Rightarrow> Inl e
      | Inr y \<Rightarrow> (case collect f xs of Inl e \<Rightarrow> Inl e | Inr ys \<Rightarrow> Inr (y # ys)))"

text \<open>Lines 27 to 32: the type, from the file name.\<close>

definition infer_type :: "string \<Rightarrow> model_type" where
  "infer_type fileName =
     (if startsWith fileName ''stg_'' then staging
      else if startsWith fileName ''int_'' then intermediate
      else if startsWith fileName ''fct_'' then fact
      else if startsWith fileName ''dim_'' then dimension
      else if str_includes fileName ''snapshot'' then snapshot
      else unknown)"

text \<open>Lines 35 to 49: the config block. \<open>kv_key\<close> is \<^verbatim>\<open>match[1]\<close> as a property
  key and \<open>kv_value\<close> is \<^verbatim>\<open>match[3] || match[4]\<close>.\<close>

definition kv_key :: "rmatch \<Rightarrow> string" where
  "kv_key m = (case m_groups m 1 of None \<Rightarrow> ''undefined'' | Some k \<Rightarrow> k)"

definition kv_value :: "rmatch \<Rightarrow> jsval" where
  "kv_value m =
     (let m4 = (case m_groups m 4 of None \<Rightarrow> Undefined | Some w \<Rightarrow> JStr w)
      in case m_groups m 3 of None \<Rightarrow> m4 | Some v \<Rightarrow> if v \<noteq> [] then JStr v else m4)"

definition parse_materialized :: "string \<Rightarrow> error + string option" where
  "parse_materialized configStr =
     (case str_match False materialized_re configStr of
        None \<Rightarrow> Inr None
      | Some matMatch \<Rightarrow>
          (case group_str matMatch 1 of Inl e \<Rightarrow> Inl e | Inr v \<Rightarrow> Inr (Some v)))"

definition parse_kv :: "string \<Rightarrow> (string \<rightharpoonup> jsval)" where
  "parse_kv configStr =
     foldl (\<lambda>config m. set_prop config (kv_key m) (kv_value m)) Map.empty
       (matchAll False kv_re configStr)"

definition parse_config :: "string \<Rightarrow> error + (string option \<times> (string \<rightharpoonup> jsval))" where
  "parse_config content =
     (case str_match False config_re content of
        None \<Rightarrow> Inr (None, Map.empty)
      | Some configMatch \<Rightarrow>
          (case m_groups configMatch 1 of
             None \<Rightarrow> Inl TypeError
           | Some configStr \<Rightarrow>
               (case parse_materialized configStr of
                  Inl e \<Rightarrow> Inl e
                | Inr materialization' \<Rightarrow> Inr (materialization', parse_kv configStr))))"

text \<open>Lines 51 to 63: refs and sources.\<close>

definition parse_refs :: "string \<Rightarrow> error + string list" where
  "parse_refs content = collect (\<lambda>m. group_str m 1) (matchAll False ref_re content)"

definition source_of :: "rmatch \<Rightarrow> error + (string \<times> string)" where
  "source_of m =
     (case group_str m 1 of
        Inl e \<Rightarrow> Inl e
      | Inr schema \<Rightarrow> (case group_str m 2 of Inl e \<Rightarrow> Inl e | Inr table \<Rightarrow> Inr (schema, table)))"

definition parse_sources :: "string \<Rightarrow> error + (string \<times> string) list" where
  "parse_sources content = collect source_of (matchAll False source_re content)"

text \<open>Lines 66 and 67: the CTE count.\<close>

definition match_count :: "string list option \<Rightarrow> int" where
  "match_count r = int (length (case r of None \<Rightarrow> [] | Some l \<Rightarrow> l))"

definition count_ctes :: "string \<Rightarrow> int" where
  "count_ctes content =
     match_count (match_g True with_re content) + match_count (match_g True cte_re content)"

text \<open>Lines 70 to 78: the columns of the first select clause.\<close>

fun columns_of :: "string list \<Rightarrow> error + string list" where
  "columns_of [] = Inr []"
| "columns_of (pat # pats) =
     (case str_match True alias_re (trim pat) of
        None \<Rightarrow> columns_of pats
      | Some aliasMatch \<Rightarrow>
          (case group_str aliasMatch 1 of
             Inl e \<Rightarrow> Inl e
           | Inr c \<Rightarrow> (case columns_of pats of Inl e \<Rightarrow> Inl e | Inr cs \<Rightarrow> Inr (c # cs))))"

definition parse_columns :: "string \<Rightarrow> error + string list" where
  "parse_columns content =
     (case str_match True select_re content of
        None \<Rightarrow> Inr []
      | Some selectMatch \<Rightarrow>
          (case m_groups selectMatch 1 of
             None \<Rightarrow> Inl TypeError
           | Some clause \<Rightarrow>
               if \<not> str_includes clause ''*''
               then columns_of (split_re False comma_re clause)
               else Inr []))"

definition parseModel :: "string \<Rightarrow> string \<Rightarrow> error + ParsedModel" where
  "parseModel content fileName =
     (case parse_config content of
        Inl e \<Rightarrow> Inl e
      | Inr (materialization', config') \<Rightarrow>
     (case parse_refs content of
        Inl e \<Rightarrow> Inl e
      | Inr refs' \<Rightarrow>
     (case parse_sources content of
        Inl e \<Rightarrow> Inl e
      | Inr sources' \<Rightarrow>
     (case parse_columns content of
        Inl e \<Rightarrow> Inl e
      | Inr columns' \<Rightarrow>
          Inr \<lparr>name = fileName,
               type = infer_type fileName,
               materialization = materialization',
               config = config',
               refs = refs',
               sources = sources',
               columns = columns',
               hasTests = False,
               cteCount = count_ctes content,
               lineCount = int (length (split_lines content))\<rparr>))))"

section \<open>\<^verbatim>\<open>detectAntiPatterns\<close> and \<^verbatim>\<open>detectAntiPatternsFromContent\<close>\<close>

text \<open>Lines 94 to 102: the two-argument function returns the list it has just created.\<close>

definition detectAntiPatterns :: "ParsedModel \<Rightarrow> string \<Rightarrow> Issue list" where
  "detectAntiPatterns model warehouse = []"

text \<open>The line number of a rule: \<^verbatim>\<open>lines.findIndex(l => l.toLowerCase().includes(s)) + 1\<close>.\<close>

definition line_of :: "string list \<Rightarrow> string \<Rightarrow> int" where
  "line_of lines s = findIndex (\<lambda>l. str_includes (toLowerCase l) s) lines + 1"

text \<open>Each rule is one \<^verbatim>\<open>if\<close> of the source, in its order; it gives the issues that
  the \<^verbatim>\<open>if\<close> pushes. The object literal of each issue has a name of its own.\<close>

definition select_star_issue :: "int \<Rightarrow> Issue" where
  "select_star_issue lineNum =
     \<lparr>pattern = ''SELECT * in production'',
      severity = high,
      location = ''Line '' @ show_int lineNum,
      fix_text = ''List specific columns needed'',
      explanation = ''SELECT * is fragile (breaks when source adds columns), expensive (transfers unnecessary data), and hides dependencies.'',
      line = Some lineNum\<rparr>"

definition rule_select_star :: "string \<Rightarrow> string list \<Rightarrow> Issue list" where
  "rule_select_star sqlLower lines =
     (if str_includes sqlLower ''select *'' \<and> \<not> str_includes sqlLower ''select * from (''
      then (let lineNum = line_of lines ''select *'' in [select_star_issue lineNum])
      else [])"

definition staging_join_issue :: "int \<Rightarrow> Issue" where
  "staging_join_issue lineNum =
     \<lparr>pattern = ''Join in staging model'',
      severity = medium,
      location = ''Line '' @ show_int lineNum,
      fix_text = ''Move joins to intermediate or mart layer'',
      explanation = ''Staging should be 1:1 with source. Joins belong in intermediate models where business logic lives.'',
      line = Some lineNum\<rparr>"

definition rule_staging_join :: "string \<Rightarrow> string list \<Rightarrow> Issue list" where
  "rule_staging_join sqlLower lines =
     (if str_includes sqlLower '' join '' \<and> \<not> str_includes sqlLower ''deduplication''
      then (let lineNum = line_of lines '' join '' in [staging_join_issue lineNum])
      else [])"

definition staging_ref_issue :: Issue where
  "staging_ref_issue =
     \<lparr>pattern = ''ref() in staging model'',
      severity = high,
      location = ''Model references'',
      fix_text = ''Use source() instead of ref() in staging models'',
      explanation = ''Staging models should only reference sources, not other models.'',
      line = None\<rparr>"

definition rule_staging_ref :: "ParsedModel \<Rightarrow> Issue list" where
  "rule_staging_ref model =
     (if length (refs model) > 0 then [staging_ref_issue] else [])"

definition rule_staging :: "string \<Rightarrow> string list \<Rightarrow> ParsedModel \<Rightarrow> Issue list" where
  "rule_staging sqlLower lines model =
     (if type model = staging
      then rule_staging_join sqlLower lines @ rule_staging_ref model
      else [])"

definition incremental_key_issue :: Issue where
  "incremental_key_issue =
     \<lparr>pattern = ''Incremental without unique_key'',
      severity = critical,
      location = ''Config block'',
      fix_text = ''Add unique_key to config for merge/delete+insert strategies'',
      explanation = ''Without unique_key, merge strategy won't work correctly and you'll accumulate duplicates.'',
      line = None\<rparr>"

definition rule_incremental_key :: "string \<Rightarrow> ParsedModel \<Rightarrow> Issue list" where
  "rule_incremental_key sqlLower model =
     (if str_includes sqlLower ''is_incremental()'' \<and> \<not> truthy (get_prop (config model) ''unique_key'')
      then [incremental_key_issue]
      else [])"

definition unbounded_issue :: Issue where
  "unbounded_issue =
     \<lparr>pattern = ''Unbounded incremental filter'',
      severity = medium,
      location = ''Incremental WHERE clause'',
      fix_text = ''Add upper bound: AND updated_at < current_timestamp()'',
      explanation = ''Future-dated rows will be processed repeatedly without an upper bound.'',
      line = None\<rparr>"

definition rule_unbounded :: "string \<Rightarrow> Issue list" where
  "rule_unbounded sqlLower =
     (if str_includes sqlLower ''is_incremental()''
      then (let hasUpperBound = (str_includes sqlLower ''< current'' \<or>
                                 str_includes sqlLower ''< getdate'' \<or>
                                 str_includes sqlLower ''< now()'' \<or>
                                 str_includes sqlLower ''< sysdate'')
            in if \<not> hasUpperBound then [unbounded_issue] else [])
      else [])"

definition hardcoded_date_issue :: "int \<Rightarrow> string \<Rightarrow> Issue" where
  "hardcoded_date_issue lineNum matched =
     \<lparr>pattern = ''Hardcoded date literal'',
      severity = medium,
      location = ''Line '' @ show_int lineNum @ '': '' @ matched,
      fix_text = ''Use var() or dbt_date macros'',
      explanation = ''Hardcoded dates require manual updates and differ between environments.'',
      line = Some lineNum\<rparr>"

definition rule_hardcoded_date :: "string \<Rightarrow> string list \<Rightarrow> Issue list" where
  "rule_hardcoded_date content lines =
     (case str_match False date_re content of
        None \<Rightarrow> []
      | Some hardcodedDateMatch \<Rightarrow>
          (let lineNum = findIndex (\<lambda>l. str_includes l (m_text hardcodedDateMatch)) lines + 1
           in [hardcoded_date_issue lineNum (m_text hardcodedDateMatch)]))"

definition distinct_join_issue :: Issue where
  "distinct_join_issue =
     \<lparr>pattern = ''DISTINCT after JOIN (possible fan-out fix)'',
      severity = high,
      location = ''SELECT DISTINCT with JOIN'',
      fix_text = ''Fix the join condition or deduplicate upstream'',
      explanation = ''DISTINCT after JOIN often masks a fan-out problem. Fix the root cause instead.'',
      line = None\<rparr>"

definition rule_distinct_join :: "string \<Rightarrow> Issue list" where
  "rule_distinct_join sqlLower =
     (if str_includes sqlLower ''select distinct'' \<and> str_includes sqlLower '' join ''
      then [distinct_join_issue]
      else [])"

definition cross_join_issue :: "int \<Rightarrow> Issue" where
  "cross_join_issue lineNum =
     \<lparr>pattern = ''CROSS JOIN detected'',
      severity = critical,
      location = ''Line '' @ show_int lineNum,
      fix_text = ''Ensure CROSS JOIN is intentional; consider alternatives'',
      explanation = ''CROSS JOINs create Cartesian products. Even small tables (1K x 1K = 1M rows) can explode.'',
      line = Some lineNum\<rparr>"

definition rule_cross_join :: "string \<Rightarrow> string list \<Rightarrow> Issue list" where
  "rule_cross_join sqlLower lines =
     (if str_includes sqlLower ''cross join''
      then (let lineNum = line_of lines ''cross join'' in [cross_join_issue lineNum])
      else [])"

definition func_filter_issue :: Issue where
  "func_filter_issue =
     \<lparr>pattern = ''Function on filter/join column'',
      severity = high,
      location = ''WHERE/ON clause'',
      fix_text = ''Move transformation to other side of comparison or materialize'',
      explanation = ''Functions on filter columns prevent partition pruning and index usage.'',
      line = None\<rparr>"

definition rule_func_filter :: "string \<Rightarrow> Issue list" where
  "rule_func_filter sqlLower =
     (if str_match True where_func_re sqlLower \<noteq> None \<or> str_match True on_func_re sqlLower \<noteq> None
      then [func_filter_issue]
      else [])"

definition snowflake_issue :: Issue where
  "snowflake_issue =
     \<lparr>pattern = ''Non-deterministic function in view'',
      severity = medium,
      location = ''UUID generation'',
      fix_text = ''Materialize as table or use consistent key generation'',
      explanation = ''UUID_STRING() in views generates new values on each query.'',
      line = None\<rparr>"

definition rule_snowflake :: "string \<Rightarrow> ParsedModel \<Rightarrow> string \<Rightarrow> Issue list" where
  "rule_snowflake sqlLower model warehouse =
     (if warehouse = ''snowflake''
      then (if str_includes sqlLower ''uuid_string()'' \<and> materialization model = Some ''view''
            then [snowflake_issue]
            else [])
      else [])"

definition bigquery_issue :: Issue where
  "bigquery_issue =
     \<lparr>pattern = ''LIMIT without ORDER BY'',
      severity = medium,
      location = ''LIMIT clause'',
      fix_text = ''Add ORDER BY for deterministic results'',
      explanation = ''BigQuery doesn't guarantee row order without ORDER BY.'',
      line = None\<rparr>"

definition rule_bigquery :: "string \<Rightarrow> string \<Rightarrow> Issue list" where
  "rule_bigquery sqlLower warehouse =
     (if warehouse = ''bigquery''
      then (if str_includes sqlLower ''limit'' \<and> \<not> str_includes sqlLower ''order by''
            then [bigquery_issue]
            else [])
      else [])"

definition cte_count_issue :: "int \<Rightarrow> Issue" where
  "cte_count_issue n =
     \<lparr>pattern = ''High CTE count'',
      severity = low,
      location = show_int n @ '' CTEs detected'',
      fix_text = ''Consider breaking into separate intermediate models'',
      explanation = ''Many CTEs can be hard to maintain and debug. Consider refactoring.'',
      line = None\<rparr>"

definition rule_cte_count :: "ParsedModel \<Rightarrow> Issue list" where
  "rule_cte_count model =
     (if cteCount model > 7 then [cte_count_issue (cteCount model)] else [])"

definition detectAntiPatternsFromContent :: "string \<Rightarrow> ParsedModel \<Rightarrow> string \<Rightarrow> Issue list" where
  "detectAntiPatternsFromContent content model warehouse =
     (let sqlLower = toLowerCase content;
          lines = split_lines content
      in rule_select_star sqlLower lines
       @ rule_staging sqlLower lines model
       @ rule_incremental_key sqlLower model
       @ rule_unbounded sqlLower
       @ rule_hardcoded_date content lines
       @ rule_distinct_join sqlLower
       @ rule_cross_join sqlLower lines
       @ rule_func_filter sqlLower
       @ rule_snowflake sqlLower model warehouse
       @ rule_bigquery sqlLower warehouse
       @ rule_cte_count model)"

section \<open>\<^verbatim>\<open>reviewCode\<close>\<close>

text \<open>Lines 300 to 319: the strengths.\<close>

definition find_strengths :: "ParsedModel \<Rightarrow> string \<Rightarrow> string list" where
  "find_strengths model content =
     (let sqlLower = toLowerCase content in
        (if str_includes content ''config('' then [''Uses config block for model configuration''] else [])
      @ (if str_includes content ''-- '' \<or> str_includes content ''/*''
         then [''Code includes comments''] else [])
      @ (if str_includes sqlLower ''coalesce'' \<or> str_includes sqlLower ''ifnull'' \<or> str_includes sqlLower ''nvl''
         then [''Handles null values appropriately''] else [])
      @ (if materialization model = Some ''incremental''
         then [''Uses incremental materialization for efficiency''] else [])
      @ (if cteCount model > 0 \<and> cteCount model \<le> 5
         then [''Uses CTEs for readable organization''] else []))"

text \<open>Lines 324 to 340: the loop over the anti-patterns, on the pair of the issues and
  the score.\<close>

fun penalty :: "severity \<Rightarrow> int" where
  "penalty critical = 25"
| "penalty high = 15"
| "penalty medium = 10"
| "penalty low = 5"

definition review_issue :: "Issue \<Rightarrow> ReviewIssue" where
  "review_issue ap =
     \<lparr>r_severity = severity_name (severity ap),
      title = pattern ap,
      description = explanation ap,
      suggestion = fix_text ap,
      r_line = line ap\<rparr>"

definition review_step :: "ReviewIssue list \<times> int \<Rightarrow> Issue \<Rightarrow> ReviewIssue list \<times> int" where
  "review_step st ap =
     (case st of (issues', score') \<Rightarrow> (issues' @ [review_issue ap], score' - penalty (severity ap)))"

text \<open>Lines 343 to 365: the strict checks.\<close>

definition description_issue :: ReviewIssue where
  "description_issue =
     \<lparr>r_severity = ''low'',
      title = ''Missing model description'',
      description = ''Model has no description in config or YAML'',
      suggestion = ''Add a description explaining the model's purpose'',
      r_line = None\<rparr>"

definition strict_description :: "string \<Rightarrow> ReviewIssue list \<times> int \<Rightarrow> ReviewIssue list \<times> int" where
  "strict_description content st =
     (case st of (issues', score') \<Rightarrow>
        if \<not> str_includes content ''description''
        then (issues' @ [description_issue], score' - 5)
        else (issues', score'))"

definition naming_issue :: "ParsedModel \<Rightarrow> ReviewIssue" where
  "naming_issue model =
     \<lparr>r_severity = ''low'',
      title = ''Inconsistent naming convention'',
      description = ''Model type appears to be '' @ type_name (type model) @
                    '' but name doesn't follow convention'',
      suggestion = ''Rename to '' @ take 3 (type_name (type model)) @ ''_'' @ name model,
      r_line = None\<rparr>"

definition strict_naming :: "ParsedModel \<Rightarrow> ReviewIssue list \<times> int \<Rightarrow> ReviewIssue list \<times> int" where
  "strict_naming model st =
     (case st of (issues', score') \<Rightarrow>
        if type model \<noteq> unknown \<and>
           \<not> startsWith (name model) (take 3 (type_name (type model)) @ ''_'')
        then (issues' @ [naming_issue model], score' - 5)
        else (issues', score'))"

text \<open>Lines 371 to 378: the verdict.\<close>

definition verdict_of :: "ReviewIssue list \<Rightarrow> bool \<Rightarrow> verdict" where
  "verdict_of issues' strict =
     (if list_ex (\<lambda>i. r_severity i = ''critical'') issues' then request_changes
      else if list_ex (\<lambda>i. r_severity i = ''high'') issues'
           then (if strict then request_changes else comment)
      else if length issues' > 0 then comment
      else approve)"

definition reviewCode :: "ParsedModel \<Rightarrow> string \<Rightarrow> string \<Rightarrow> bool \<Rightarrow> ReviewResult" where
  "reviewCode model content warehouse strict =
     (let strengths' = find_strengths model content;
          antiPatterns = detectAntiPatternsFromContent content model warehouse;
          st = foldl review_step ([], 100) antiPatterns;
          st = (if strict then strict_naming model (strict_description content st) else st);
          score' = max 0 (min 100 (snd st))
      in \<lparr>score = score',
          overall = verdict_of (fst st) strict,
          strengths = strengths',
          issues = fst st\<rparr>)"


section \<open>Properties\<close>

subsection \<open>The string methods\<close>

lemma startsWith_iff: "startsWith s p \<longleftrightarrow> take (length p) s = p"
  by (induction s p rule: startsWith.induct) auto

lemma startsWith_append: "startsWith s p \<longleftrightarrow> (\<exists>b. s = p @ b)"
  unfolding startsWith_iff
  by (metis append_eq_conv_conj append_take_drop_id)

lemma str_includes_iff: "str_includes s p \<longleftrightarrow> (\<exists>a b. s = a @ p @ b)"
proof (induction s)
  case Nil
  then show ?case by simp
next
  case (Cons x s)
  show ?case
  proof
    assume "str_includes (x # s) p"
    then consider "startsWith (x # s) p" | "str_includes s p" by auto
    then show "\<exists>a b. x # s = a @ p @ b"
    proof cases
      case 1
      then obtain b where "x # s = p @ b" using startsWith_append by blast
      then have "x # s = [] @ p @ b" by simp
      then show ?thesis by blast
    next
      case 2
      with Cons obtain a b where "s = a @ p @ b" by blast
      then have "x # s = (x # a) @ p @ b" by simp
      then show ?thesis by blast
    qed
  next
    assume "\<exists>a b. x # s = a @ p @ b"
    then obtain a b where ab: "x # s = a @ p @ b" by blast
    show "str_includes (x # s) p"
    proof (cases a)
      case Nil
      with ab have "startsWith (x # s) p" using startsWith_append by auto
      then show ?thesis by simp
    next
      case (Cons y a')
      with ab have "s = a' @ p @ b" by simp
      with Cons.IH have "str_includes s p" by blast
      then show ?thesis by simp
    qed
  qed
qed

lemma infer_type_spec:
  "infer_type f =
     (if take 4 f = ''stg_'' then staging
      else if take 4 f = ''int_'' then intermediate
      else if take 4 f = ''fct_'' then fact
      else if take 4 f = ''dim_'' then dimension
      else if (\<exists>a b. f = a @ ''snapshot'' @ b) then snapshot
      else unknown)"
proof -
  have a: "\<And>p. length p = 4 \<Longrightarrow> startsWith f p = (take 4 f = p)"
    by (simp add: startsWith_iff)
  have "startsWith f ''stg_'' = (take 4 f = ''stg_'')"
    "startsWith f ''int_'' = (take 4 f = ''int_'')"
    "startsWith f ''fct_'' = (take 4 f = ''fct_'')"
    "startsWith f ''dim_'' = (take 4 f = ''dim_'')"
    by (rule a, simp)+
  then show ?thesis
    unfolding infer_type_def str_includes_iff by presburger
qed

lemma foldl_review_step:
  "foldl review_step (is0, sc0) aps =
     (is0 @ map review_issue aps, sc0 - sum_list (map (penalty \<circ> severity) aps))"
  by (induction aps arbitrary: is0 sc0) (auto simp: review_step_def)


subsection \<open>Capture groups that a match always sets\<close>

lemma reset_Nil [simp]: "reset [] cp = cp"
  by (simp add: reset_def)

lemma ms_Star_set:
  "set (ms ci (Star g r) (p, xs, cp)) =
     insert (p, xs, cp) (\<Union>st1 \<in> {s \<in> set (ms ci r (p, xs, reset (groups r) cp)).
        length (fst (snd s)) < length xs}. set (ms ci (Star g r) st1))"
  by (subst ms.simps(6)) (simp add: Let_def)

lemma ms_keeps:
  "i \<notin> set (groups r) \<Longrightarrow> st' \<in> set (ms ci r st) \<Longrightarrow> snd (snd st') i = snd (snd st) i"
proof (induction ci r st arbitrary: st' rule: ms.induct)
  case (1 ci st)
  then show ?case by simp
next
  case (2 ci c p xs cp)
  then show ?case by (cases xs) (auto split: if_splits)
next
  case (3 ci k p xs cp)
  then show ?case by (cases xs) (auto split: if_splits)
next
  case (4 ci a b st)
  from 4(4) obtain st1 where a: "st1 \<in> set (ms ci a st)" and b: "st' \<in> set (ms ci b st1)"
    by auto
  from 4(3) have ia: "i \<notin> set (groups a)" and ib: "i \<notin> set (groups b)" by auto
  from 4(1)[OF ia a] 4(2)[OF a ib b] show ?case by simp
next
  case (5 ci a b st)
  from 5(3) have ia: "i \<notin> set (groups a)" and ib: "i \<notin> set (groups b)" by auto
  from 5(4) have "st' \<in> set (ms ci a st) \<or> st' \<in> set (ms ci b st)" by simp
  then show ?case using 5(1)[OF ia] 5(2)[OF ib] by blast
next
  case (6 ci g r p xs cp)
  from 6(3) have ir: "i \<notin> set (groups r)" by simp
  show ?case
  proof (cases "st' = (p, xs, cp)")
    case True
    then show ?thesis by simp
  next
    case False
    with 6(4) ms_Star_set[of ci g r p xs cp]
    obtain st1 where a: "st1 \<in> set (ms ci r (p, xs, reset (groups r) cp))"
      and l: "length (fst (snd st1)) < length xs"
      and b: "st' \<in> set (ms ci (Star g r) st1)"
      by blast
    from 6(1)[OF ir a] ir have "snd (snd st1) i = cp i" by (simp add: reset_def)
    moreover from a l have "st1 \<in> set (filter (\<lambda>st'. length (fst (snd st')) < length xs)
        (ms ci r (p, xs, reset (groups r) cp)))" by simp
    from 6(2)[OF this 6(3) b] have "snd (snd st') i = snd (snd st1) i" .
    ultimately show ?thesis by simp
  qed
next
  case (7 ci j r p xs cp)
  from 7(2) have ij: "i \<noteq> j" and ir: "i \<notin> set (groups r)" by auto
  from 7(3) obtain st1 where a: "st1 \<in> set (ms ci r (p, xs, cp))"
    and e: "snd (snd st') i = snd (snd st1) i"
    using ij by (auto simp: split_def)
  from 7(1)[OF ir a] e show ?case by simp
next
  case (8 ci p xs cp)
  then show ?case by (auto split: if_splits)
next
  case (9 ci p xs cp)
  then show ?case by (auto split: if_splits)
next
  case (10 ci r st)
  then show ?case by (auto split: if_splits)
qed

text \<open>A pattern surely sets a group when every way through it passes the group and no
  later part clears it.\<close>

fun sets :: "nat \<Rightarrow> regex \<Rightarrow> bool" where
  "sets i (Group j r) = (i = j \<or> sets i r)"
| "sets i (Seq a b) = ((sets i a \<and> i \<notin> set (groups b)) \<or> sets i b)"
| "sets i (Alt a b) = (sets i a \<and> sets i b)"
| "sets i r = False"

lemma ms_sets:
  "sets i r \<Longrightarrow> st' \<in> set (ms ci r st) \<Longrightarrow> snd (snd st') i \<noteq> None"
proof (induction r arbitrary: st st')
  case (Seq a b)
  from Seq(4) obtain st1 where a: "st1 \<in> set (ms ci a st)" and b: "st' \<in> set (ms ci b st1)"
    by auto
  from Seq(3) consider "sets i a" "i \<notin> set (groups b)" | "sets i b" by auto
  then show ?case
  proof cases
    case 1
    from Seq(1)[OF 1(1) a] ms_keeps[OF 1(2) b] show ?thesis by simp
  next
    case 2
    from Seq(2)[OF 2 b] show ?thesis .
  qed
next
  case (Alt a b)
  from Alt(3) have sa: "sets i a" and sb: "sets i b" by auto
  from Alt(4) have "st' \<in> set (ms ci a st) \<or> st' \<in> set (ms ci b st)" by simp
  then show ?case using Alt(1)[OF sa] Alt(2)[OF sb] by blast
next
  case (Group j r)
  obtain p xs cp where st: "st = (p, xs, cp)" by (cases st)
  show ?case
  proof (cases "i = j")
    case True
    with Group(3) st show ?thesis by (auto simp: split_def)
  next
    case False
    with Group(2) have s: "sets i r" by simp
    from Group(3) st False obtain st1 where a: "st1 \<in> set (ms ci r st)"
      and e: "snd (snd st') i = snd (snd st1) i"
      by (auto simp: split_def)
    from Group(1)[OF s a] e show ?thesis by simp
  qed
qed simp_all

lemma search_sets:
  "sets i r \<Longrightarrow> search ci r p xs = Some m \<Longrightarrow> m_groups m i \<noteq> None"
proof (induction xs arbitrary: p)
  case Nil
  show ?case
  proof (cases "ms ci r (p, [], Map.empty)")
    case Nil
    with Nil.prems show ?thesis by simp
  next
    case (Cons st sts)
    then have "st \<in> set (ms ci r (p, [], Map.empty))" by simp
    from ms_sets[OF Nil.prems(1) this] Cons Nil.prems(2) show ?thesis
      by (auto simp: mk_match_def split_def)
  qed
next
  case (Cons x xs)
  show ?case
  proof (cases "ms ci r (p, x # xs, Map.empty)")
    case Nil
    with Cons show ?thesis by simp
  next
    case (Cons st sts)
    then have "st \<in> set (ms ci r (p, x # xs, Map.empty))" by simp
    from ms_sets[OF Cons.prems(1) this] Cons Cons.prems(2) show ?thesis
      by (auto simp: mk_match_def split_def)
  qed
qed

lemma matchAll_from_sets:
  "sets i r \<Longrightarrow> m \<in> set (matchAll_from ci r p xs) \<Longrightarrow> m_groups m i \<noteq> None"
proof (induction ci r p xs rule: matchAll_from.induct)
  case (1 ci r p xs)
  show ?case
  proof (cases "search ci r p xs")
    case None
    with 1(4) show ?thesis by (simp add: matchAll_from.simps[of ci r p xs])
  next
    case (Some m0)
    note s = search_sets[OF 1(3) Some]
    show ?thesis
    proof (cases "m = m0")
      case True
      with s show ?thesis by simp
    next
      case False
      show ?thesis
      proof (cases "m_text m0 \<noteq> []")
        case True
        with 1(4) Some False have "m \<in> set (matchAll_from ci r (m_prev m0) (m_rest m0))"
          by (simp add: matchAll_from.simps[of ci r p xs])
        from 1(1)[OF Some True 1(3) this] show ?thesis .
      next
        case F: False
        show ?thesis
        proof (cases "m_rest m0")
          case Nil
          with 1(4) Some False F show ?thesis
            by (simp add: matchAll_from.simps[of ci r p xs])
        next
          case (Cons y ys)
          with 1(4) Some False F have "m \<in> set (matchAll_from ci r (Some y) ys)"
            by (simp add: matchAll_from.simps[of ci r p xs])
          from 1(2)[OF Some F Cons 1(3) this] show ?thesis .
        qed
      qed
    qed
  qed
qed

lemma collect_total:
  "(\<And>x. x \<in> set xs \<Longrightarrow> \<exists>y. f x = Inr y) \<Longrightarrow> \<exists>ys. collect f xs = Inr ys \<and> length ys = length xs"
proof (induction xs)
  case Nil
  then show ?case by simp
next
  case (Cons x xs)
  from Cons.prems[of x] obtain y where y: "f x = Inr y" by auto
  from Cons.IH Cons.prems obtain ys where "collect f xs = Inr ys" "length ys = length xs"
    by auto
  with y show ?case by simp
qed

lemma sets_ref_re: "sets 1 ref_re"
  by (simp add: ref_re_def Plus_def)

lemma sets_source_re: "sets 1 source_re" "sets 2 source_re"
  by (simp_all add: source_re_def Plus_def)

lemma sets_config_re: "sets 1 config_re"
  by (simp add: config_re_def Plus_def)

lemma sets_materialized_re: "sets 1 materialized_re"
  by (simp add: materialized_re_def Plus_def)

lemma sets_select_re: "sets 1 select_re"
  by (simp add: select_re_def Plus_def)

lemma sets_alias_re: "sets 1 alias_re"
  by (simp add: alias_re_def Plus_def Opt_def)

subsection \<open>parseModel always returns a model\<close>

lemma str_match_sets:
  "sets i r \<Longrightarrow> str_match ci r s = Some m \<Longrightarrow> \<exists>v. m_groups m i = Some v"
  using search_sets[of i r ci None s m] by (auto simp: str_match_def)

lemma parse_materialized_total: "\<exists>v. parse_materialized s = Inr v"
proof (cases "str_match False materialized_re s")
  case None
  then show ?thesis by (simp add: parse_materialized_def)
next
  case (Some m)
  from str_match_sets[OF sets_materialized_re Some] show ?thesis
    by (auto simp: parse_materialized_def Some group_str_def)
qed

lemma parse_config_total: "\<exists>v. parse_config c = Inr v"
proof (cases "str_match False config_re c")
  case None
  then show ?thesis by (simp add: parse_config_def)
next
  case (Some m)
  from str_match_sets[OF sets_config_re Some] obtain s where s: "m_groups m 1 = Some s" by blast
  from parse_materialized_total obtain v where "parse_materialized s = Inr v" by blast
  with s Some show ?thesis by (simp add: parse_config_def)
qed

lemma parse_refs_total:
  "\<exists>rs. parse_refs c = Inr rs \<and> length rs = length (matchAll False ref_re c)"
  unfolding parse_refs_def
proof (rule collect_total)
  fix m assume "m \<in> set (matchAll False ref_re c)"
  then have "m_groups m 1 \<noteq> None"
    using matchAll_from_sets[OF sets_ref_re] by (simp add: matchAll_def)
  then show "\<exists>y. group_str m 1 = Inr y" by (auto simp: group_str_def)
qed

lemma parse_sources_total: "\<exists>ss. parse_sources c = Inr ss"
proof -
  have "\<exists>ss. collect source_of (matchAll False source_re c) = Inr ss \<and>
      length ss = length (matchAll False source_re c)"
  proof (rule collect_total)
    fix m assume m: "m \<in> set (matchAll False source_re c)"
    then have "m_groups m 1 \<noteq> None" "m_groups m 2 \<noteq> None"
      using matchAll_from_sets[OF sets_source_re(1)] matchAll_from_sets[OF sets_source_re(2)]
      by (simp_all add: matchAll_def)
    then show "\<exists>y. source_of m = Inr y" by (auto simp: source_of_def group_str_def)
  qed
  then show ?thesis by (auto simp: parse_sources_def)
qed

lemma columns_of_total: "\<exists>cs. columns_of pats = Inr cs"
proof (induction pats)
  case Nil
  then show ?case by simp
next
  case (Cons pat pats)
  then obtain cs where cs: "columns_of pats = Inr cs" by blast
  show ?case
  proof (cases "str_match True alias_re (trim pat)")
    case None
    with cs show ?thesis by simp
  next
    case (Some m)
    from str_match_sets[OF sets_alias_re Some] obtain v where "m_groups m 1 = Some v" by blast
    with Some cs show ?thesis by (simp add: group_str_def)
  qed
qed

lemma parse_columns_total: "\<exists>cs. parse_columns c = Inr cs"
proof (cases "str_match True select_re c")
  case None
  then show ?thesis by (simp add: parse_columns_def)
next
  case (Some m)
  from str_match_sets[OF sets_select_re Some] obtain s where s: "m_groups m 1 = Some s" by blast
  from columns_of_total obtain cs where "columns_of (split_re False comma_re s) = Inr cs" by blast
  with s Some show ?thesis by (simp add: parse_columns_def)
qed

lemma parseModel_total: "\<exists>m. parseModel c f = Inr m"
proof -
  obtain mc where 1: "parse_config c = Inr mc" using parse_config_total by blast
  obtain rs where 2: "parse_refs c = Inr rs" using parse_refs_total by blast
  obtain ss where 3: "parse_sources c = Inr ss" using parse_sources_total by blast
  obtain cs where 4: "parse_columns c = Inr cs" using parse_columns_total by blast
  show ?thesis by (simp add: parseModel_def 1 2 3 4 split_def)
qed

lemma parseModel_fields:
  assumes "parseModel c f = Inr m"
  shows "name m = f" and "type m = infer_type f"
    and "parse_config c = Inr (materialization m, config m)"
    and "parse_refs c = Inr (refs m)"
    and "parse_sources c = Inr (sources m)"
    and "parse_columns c = Inr (columns m)"
    and "hasTests m = False"
    and "cteCount m = count_ctes c"
    and "lineCount m = int (length (split_lines c))"
  using assms by (auto simp: parseModel_def split: sum.splits prod.splits)

subsection \<open>The score and the issues of a review\<close>

text \<open>The score before clamping: 100 less the penalty of each detected issue.\<close>

definition raw_score :: "Issue list \<Rightarrow> int" where
  "raw_score aps = 100 - sum_list (map (penalty \<circ> severity) aps)"

text \<open>The penalty of an issue of a review, read from the name of its severity.\<close>

definition penalty_of_name :: "string \<Rightarrow> int" where
  "penalty_of_name s =
     (if s = ''critical'' then 25 else if s = ''high'' then 15
      else if s = ''medium'' then 10 else if s = ''low'' then 5 else 0)"

lemma penalty_of_severity_name: "penalty_of_name (severity_name s) = penalty s"
  by (cases s) (simp_all add: penalty_of_name_def)

lemma penalty_of_name_nonneg: "0 \<le> penalty_of_name s"
  by (simp add: penalty_of_name_def)

lemma reviewCode_nonstrict:
  "issues (reviewCode m c w False) = map review_issue (detectAntiPatternsFromContent c m w)"
  "score (reviewCode m c w False) = max 0 (min 100 (raw_score (detectAntiPatternsFromContent c m w)))"
  by (simp_all add: reviewCode_def Let_def foldl_review_step raw_score_def)

lemma reviewCode_strict:
  "issues (reviewCode m c w True) =
     map review_issue (detectAntiPatternsFromContent c m w)
     @ (if \<not> str_includes c ''description'' then [description_issue] else [])
     @ (if type m \<noteq> unknown \<and> \<not> startsWith (name m) (take 3 (type_name (type m)) @ ''_'')
        then [naming_issue m] else [])"
  "score (reviewCode m c w True) =
     max 0 (min 100 (raw_score (detectAntiPatternsFromContent c m w)
       - (if \<not> str_includes c ''description'' then 5 else 0)
       - (if type m \<noteq> unknown \<and> \<not> startsWith (name m) (take 3 (type_name (type m)) @ ''_'')
          then 5 else 0)))"
  by (simp_all add: reviewCode_def Let_def foldl_review_step raw_score_def
      strict_description_def strict_naming_def)

lemma sum_review_issues':
  "(\<Sum>x\<leftarrow>aps. penalty_of_name (r_severity (review_issue x))) = (\<Sum>x\<leftarrow>aps. penalty (severity x))"
  by (induction aps) (simp_all add: review_issue_def penalty_of_severity_name)

lemma reviewCode_score_issues:
  "score (reviewCode m c w s) =
     max 0 (min 100 (100 - sum_list (map (penalty_of_name \<circ> r_severity) (issues (reviewCode m c w s)))))"
proof (cases s)
  case True
  have 5: "penalty_of_name (r_severity description_issue) = 5"
    "penalty_of_name (r_severity (naming_issue m)) = 5"
    by (simp_all add: description_issue_def naming_issue_def penalty_of_name_def)
  have "score (reviewCode m c w True) =
     max 0 (min 100 (100 - sum_list (map (penalty_of_name \<circ> r_severity) (issues (reviewCode m c w True)))))"
    unfolding reviewCode_strict
    by (simp add: 5 sum_review_issues' raw_score_def comp_def)
  with True show ?thesis by simp
next
  case False
  then show ?thesis
    by (simp add: reviewCode_nonstrict sum_review_issues' raw_score_def comp_def)
qed

subsection \<open>Evaluation on concrete texts\<close>

lemmas char_eval = canon_def to_lower_char_def is_upper_def code_unit_def is_space_def
  is_word_def is_digit_def is_line_terminator_def

lemmas re_eval = ms.simps(6) Let_def str_match_def mk_match_def char_eval
  word_before_def word_after_def Plus_def Opt_def Twice_def reset_def
  matchAll_def matchAll_from.simps match_g_def

lemmas issue_defs = select_star_issue_def staging_join_issue_def staging_ref_issue_def
  incremental_key_issue_def unbounded_issue_def hardcoded_date_issue_def distinct_join_issue_def
  cross_join_issue_def func_filter_issue_def snowflake_issue_def bigquery_issue_def
  cte_count_issue_def

lemmas rule_defs = rule_select_star_def rule_staging_def rule_staging_join_def
  rule_staging_ref_def rule_incremental_key_def rule_unbounded_def rule_hardcoded_date_def
  rule_distinct_join_def rule_cross_join_def rule_func_filter_def rule_snowflake_def
  rule_bigquery_def rule_cte_count_def


text \<open>Whether a list of issues holds one of a given pattern and severity.\<close>

definition has_issue :: "Issue list \<Rightarrow> string \<Rightarrow> severity \<Rightarrow> bool" where
  "has_issue is p s = list_ex (\<lambda>i. pattern i = p \<and> severity i = s) is"

lemma has_issue_iff: "has_issue is p s \<longleftrightarrow> (\<exists>i. i \<in> set is \<and> pattern i = p \<and> severity i = s)"
  by (auto simp: has_issue_def list_ex_iff)

subsection \<open>Where a search finds a match\<close>

text \<open>The character before the position reached after reading a string.\<close>

fun lastp :: "char option \<Rightarrow> string \<Rightarrow> char option" where
  "lastp p [] = p"
| "lastp p (x # xs) = lastp (Some x) xs"

lemma lastp_append [simp]: "lastp p (xs @ ys) = lastp (lastp p xs) ys"
  by (induction xs arbitrary: p) simp_all

lemma search_Some_ms:
  "search ci r p xs = Some m \<Longrightarrow> \<exists>a b. xs = a @ b \<and> ms ci r (lastp p a, b, Map.empty) \<noteq> []"
proof (induction xs arbitrary: p)
  case Nil
  then have "ms ci r (lastp p [], [], Map.empty) \<noteq> []" by (auto split: list.splits)
  then show ?case by blast
next
  case (Cons x xs)
  show ?case
  proof (cases "ms ci r (p, x # xs, Map.empty)")
    case Nil
    with Cons.prems have "search ci r (Some x) xs = Some m" by simp
    from Cons.IH[OF this] obtain a b where "xs = a @ b"
      "ms ci r (lastp (Some x) a, b, Map.empty) \<noteq> []" by blast
    then have "x # xs = (x # a) @ b \<and> ms ci r (lastp p (x # a), b, Map.empty) \<noteq> []" by simp
    then show ?thesis by blast
  next
    case (Cons st sts)
    then have "x # xs = [] @ (x # xs) \<and> ms ci r (lastp p [], x # xs, Map.empty) \<noteq> []" by simp
    then show ?thesis by blast
  qed
qed

lemma ms_search:
  "ms ci r (lastp p a, b, Map.empty) \<noteq> [] \<Longrightarrow> search ci r p (a @ b) \<noteq> None"
proof (induction a arbitrary: p)
  case Nil
  then show ?case by (cases b) (auto split: list.splits)
next
  case (Cons x a)
  then show ?case by (auto split: list.splits)
qed

lemma str_match_iff:
  "str_match ci r s \<noteq> None \<longleftrightarrow> (\<exists>a b. s = a @ b \<and> ms ci r (lastp None a, b, Map.empty) \<noteq> [])"
  unfolding str_match_def using search_Some_ms[of ci r None s] ms_search[of ci r None] by blast

subsection \<open>Patterns that begin with single characters\<close>

lemma ms_Seq_Chr:
  "ms ci (Seq (Chr c) r) (p, xs, cp) =
     (case xs of [] \<Rightarrow> []
      | x # xs' \<Rightarrow> if canon ci x = canon ci c then ms ci r (Some x, xs', cp) else [])"
  by (cases xs) simp_all

lemma ms_Seq_Cls:
  "ms ci (Seq (Cls k) r) (p, xs, cp) =
     (case xs of [] \<Rightarrow> []
      | x # xs' \<Rightarrow> if in_class ci k x then ms ci r (Some x, xs', cp) else [])"
  by (cases xs) simp_all

lemma concat_map_concat_map:
  "concat (map f (concat (map g xs))) = concat (map (\<lambda>x. concat (map f (g x))) xs)"
  by (induction xs) simp_all

lemma ms_Seq_Seq: "ms ci (Seq (Seq a b) r) st = ms ci (Seq a (Seq b r)) st"
proof -
  have "ms ci (Seq b r) = (\<lambda>x. concat (map (ms ci r) (ms ci b x)))"
    by (rule ext) simp
  then show ?thesis by (simp add: concat_map_concat_map)
qed

lemma ms_Seq_Eps: "ms ci (Seq Eps r) st = ms ci r st"
  by simp


subsection \<open>The date pattern\<close>

text \<open>A text that begins with a single-quoted date of the years 2000 to 2099.\<close>

fun date_at :: "string \<Rightarrow> bool" where
  "date_at (q1 # c1 # c2 # y1 # y2 # h1 # m1 # m2 # h2 # d1 # d2 # q2 # rest) =
     (q1 = sq \<and> c1 = CHR ''2'' \<and> c2 = CHR ''0'' \<and> is_digit y1 \<and> is_digit y2 \<and>
      h1 = CHR ''-'' \<and> is_digit m1 \<and> is_digit m2 \<and> h2 = CHR ''-'' \<and>
      is_digit d1 \<and> is_digit d2 \<and> q2 = sq)"
| "date_at s = False"

lemma ms_Seq_Group_empty:
  "ms ci (Seq (Group i a) r) (p, xs, cp) = [] \<longleftrightarrow>
     (\<forall>p' xs' cp'. (p', xs', cp') \<in> set (ms ci a (p, xs, cp)) \<longrightarrow>
        ms ci r (p', xs', cp'(i \<mapsto> take (length xs - length xs') xs)) = [])"
  by (auto simp: split_def)

lemma date_body_set:
  "set (ms False date_body (p, xs, cp)) =
   (case xs of
      c1 # c2 # y1 # y2 # h1 # m1 # m2 # h2 # d1 # d2 # rest \<Rightarrow>
        if c1 = CHR ''2'' \<and> c2 = CHR ''0'' \<and> is_digit y1 \<and> is_digit y2 \<and>
           h1 = CHR ''-'' \<and> is_digit m1 \<and> is_digit m2 \<and> h2 = CHR ''-'' \<and>
           is_digit d1 \<and> is_digit d2
        then {(Some d2, rest, cp)} else {}
    | _ \<Rightarrow> {})"
  by (simp add: date_body_def Twice_def ms_Seq_Seq ms_Seq_Chr ms_Seq_Cls ms_Seq_Eps canon_def
      split: list.splits)

lemma date_at_iff:
  "date_at xs \<longleftrightarrow>
     (\<exists>y1 y2 m1 m2 d1 d2 rest.
        xs = sq # CHR ''2'' # CHR ''0'' # y1 # y2 # CHR ''-'' # m1 # m2 # CHR ''-'' # d1 # d2 # sq # rest \<and>
        is_digit y1 \<and> is_digit y2 \<and> is_digit m1 \<and> is_digit m2 \<and> is_digit d1 \<and> is_digit d2)"
  by (cases xs rule: date_at.cases) auto

lemma date_shape: "ms False date_re (p, xs, cp) = [] \<longleftrightarrow> \<not> date_at xs"
proof (cases xs)
  case Nil
  then show ?thesis by (simp add: date_re_def)
next
  case (Cons q1 ys)
  have "ms False date_re (p, xs, cp) = [] \<longleftrightarrow>
    \<not> (q1 = sq \<and> (\<exists>p' rest cp'. (p', sq # rest, cp') \<in> set (ms False date_body (Some q1, ys, cp))))"
    unfolding date_re_def Cons
    by (simp add: ms_Seq_Chr ms_Seq_Group_empty canon_def del: ms.simps(4) ms.simps(7)
        split: list.splits) blast
  also have "\<dots> \<longleftrightarrow> \<not> date_at xs"
    unfolding date_body_set Cons date_at_iff
    by (auto split: list.splits if_splits)
  finally show ?thesis .
qed


lemma date_match_iff:
  "str_match False date_re c \<noteq> None \<longleftrightarrow> (\<exists>a b. c = a @ b \<and> date_at b)"
  unfolding str_match_iff date_shape by simp

lemma hardcoded_date_fires:
  "has_issue (rule_hardcoded_date c ls) ''Hardcoded date literal'' medium \<longleftrightarrow>
     str_match False date_re c \<noteq> None"
  by (auto simp: rule_hardcoded_date_def hardcoded_date_issue_def has_issue_def Let_def
      split: option.splits)

lemma has_issue_append [simp]:
  "has_issue (xs @ ys) p s \<longleftrightarrow> has_issue xs p s \<or> has_issue ys p s"
  by (auto simp: has_issue_def)

lemma has_issue_Nil [simp]: "\<not> has_issue [] p s"
  by (simp add: has_issue_def)

lemma other_rules_no_date:
  "\<not> has_issue (rule_select_star l ls) ''Hardcoded date literal'' s"
  "\<not> has_issue (rule_staging l ls m) ''Hardcoded date literal'' s"
  "\<not> has_issue (rule_incremental_key l m) ''Hardcoded date literal'' s"
  "\<not> has_issue (rule_unbounded l) ''Hardcoded date literal'' s"
  "\<not> has_issue (rule_distinct_join l) ''Hardcoded date literal'' s"
  "\<not> has_issue (rule_cross_join l ls) ''Hardcoded date literal'' s"
  "\<not> has_issue (rule_func_filter l) ''Hardcoded date literal'' s"
  "\<not> has_issue (rule_snowflake l m w) ''Hardcoded date literal'' s"
  "\<not> has_issue (rule_bigquery l w) ''Hardcoded date literal'' s"
  "\<not> has_issue (rule_cte_count m) ''Hardcoded date literal'' s"
  by (simp_all add: rule_defs issue_defs has_issue_def Let_def)

lemma detect_date_iff:
  "has_issue (detectAntiPatternsFromContent c m w) ''Hardcoded date literal'' medium \<longleftrightarrow>
     str_match False date_re c \<noteq> None"
  by (simp add: detectAntiPatternsFromContent_def Let_def other_rules_no_date hardcoded_date_fires)

subsection \<open>The type of a parsed model\<close>

lemma parseModel_type: "\<exists>m. parseModel c f = Inr m \<and> type m = infer_type f"
  using parseModel_total[of c f] parseModel_fields(2) by blast

subsection \<open>The first way of matching\<close>

text \<open>\<open>first ci r st y\<close>: the first way in which the pattern matches from the state
  \<open>st\<close> ends in the state \<open>y\<close>.\<close>

definition first :: "bool \<Rightarrow> regex \<Rightarrow> mstate \<Rightarrow> mstate \<Rightarrow> bool" where
  "first ci r st y \<longleftrightarrow> (\<exists>tl. ms ci r st = y # tl)"

lemma first_Seq: "first ci a st st1 \<Longrightarrow> first ci b st1 y \<Longrightarrow> first ci (Seq a b) st y"
  by (auto simp: first_def)

lemma first_Eps: "first ci Eps st st"
  by (simp add: first_def)

lemma first_Chr: "canon ci x = canon ci c \<Longrightarrow> first ci (Chr c) (p, x # xs, cp) (Some x, xs, cp)"
  by (simp add: first_def)

lemma first_Cls: "in_class ci k x \<Longrightarrow> first ci (Cls k) (p, x # xs, cp) (Some x, xs, cp)"
  by (simp add: first_def)

lemma first_Str: "first False (Str s) (p, s @ xs, cp) (lastp p s, xs, cp)"
proof (induction s arbitrary: p)
  case Nil
  then show ?case by (simp add: first_Eps)
next
  case (Cons c s)
  have "first False (Chr c) (p, c # (s @ xs), cp) (Some c, s @ xs, cp)"
    by (rule first_Chr) simp
  from first_Seq[OF this Cons] show ?case by simp
qed

lemma first_Star:
  assumes "\<And>c. c \<in> set zs \<Longrightarrow> in_class ci k c"
    and "xs = [] \<or> \<not> in_class ci k (hd xs)"
  shows "first ci (Star True (Cls k)) (p, zs @ xs, cp) (lastp p zs, xs, cp)"
  using assms(1)
proof (induction zs arbitrary: p)
  case Nil
  from assms(2) have "ms ci (Cls k) (p, xs, cp) = []" by (cases xs) auto
  then show ?case by (simp add: first_def ms.simps(6))
next
  case (Cons z zs)
  from Cons.prems have z: "in_class ci k z" by simp
  from Cons.IH[of "Some z"] Cons.prems obtain tl where
    "ms ci (Star True (Cls k)) (Some z, zs @ xs, cp) = (lastp (Some z) zs, xs, cp) # tl"
    by (auto simp: first_def)
  with z show ?case by (simp add: first_def ms.simps(6)[of ci True "Cls k" p])
qed

lemma first_Plus:
  assumes "\<And>c. c \<in> set zs \<Longrightarrow> in_class ci k c" and "zs \<noteq> []"
    and "xs = [] \<or> \<not> in_class ci k (hd xs)"
  shows "first ci (Plus True (Cls k)) (p, zs @ xs, cp) (lastp p zs, xs, cp)"
proof -
  from assms(2) obtain z zs' where zs: "zs = z # zs'" by (cases zs) auto
  with assms(1) have 1: "first ci (Cls k) (p, z # (zs' @ xs), cp) (Some z, zs' @ xs, cp)"
    by (intro first_Cls) simp
  from assms(1) zs have 2: "first ci (Star True (Cls k)) (Some z, zs' @ xs, cp) (lastp (Some z) zs', xs, cp)"
    by (intro first_Star assms(3)) simp
  from first_Seq[OF 1 2] show ?thesis by (simp add: Plus_def zs)
qed

lemma first_Group:
  "first ci r (p, xs, cp) (p', xs', cp') \<Longrightarrow>
   first ci (Group i r) (p, xs, cp) (p', xs', cp'(i \<mapsto> take (length xs - length xs') xs))"
  by (auto simp: first_def)

lemma first_search:
  "first ci r (lastp p a, b, Map.empty) y \<Longrightarrow> search ci r p (a @ b) \<noteq> None"
  by (rule ms_search) (auto simp: first_def)

subsection \<open>A call of ref in the text\<close>

text \<open>A call \<^verbatim>\<open>{{ ref('name') }}\<close> as the pattern of \<^verbatim>\<open>parseModel\<close> reads it: the white
  space after and before the braces, the two quotes (each single or double), and the
  name, which is not empty and holds no quote.\<close>

record ref_call =
  lead :: string
  open_q :: char
  ref_name :: string
  close_q :: char
  trail :: string

definition call_text :: "ref_call \<Rightarrow> string" where
  "call_text c = ''{{'' @ lead c @ ''ref('' @ [open_q c] @ ref_name c @ [close_q c] @ '')'' @ trail c @ ''}}''"

definition call_ok :: "ref_call \<Rightarrow> bool" where
  "call_ok c \<longleftrightarrow>
     list_all is_space (lead c) \<and> list_all is_space (trail c) \<and>
     (open_q c = sq \<or> open_q c = dq) \<and> (close_q c = sq \<or> close_q c = dq) \<and>
     ref_name c \<noteq> [] \<and> sq \<notin> set (ref_name c) \<and> dq \<notin> set (ref_name c)"

lemma first_ref_call:
  assumes "call_ok c"
  shows "first False ref_re (p, call_text c @ rest, cp) (Some CHR ''}'', rest, cp(1 \<mapsto> ref_name c))"
proof -
  let ?q1 = "open_q c" and ?q2 = "close_q c" and ?n = "ref_name c"
  let ?t9 = "''}}'' @ rest"
  let ?t8 = "trail c @ ?t9"
  let ?t7 = "CHR '')'' # ?t8"
  let ?t6 = "?q2 # ?t7"
  let ?t5 = "?n @ ?t6"
  let ?t4 = "?q1 # ?t5"
  let ?t3 = "''ref('' @ ?t4"
  let ?t2 = "lead c @ ?t3"
  let ?cp = "cp(1 \<mapsto> ?n)"
  from assms have sp: "\<And>x. x \<in> set (lead c) \<Longrightarrow> in_class False Space x"
    "\<And>x. x \<in> set (trail c) \<Longrightarrow> in_class False Space x"
    by (auto simp: call_ok_def list_all_iff)
  from assms have nq: "\<And>x. x \<in> set ?n \<Longrightarrow> in_class False (NoneOf [sq, dq]) x"
    by (auto simp: call_ok_def canon_def)
  from assms have q: "in_class False (OneOf [sq, dq]) ?q1" "in_class False (OneOf [sq, dq]) ?q2"
    by (auto simp: call_ok_def canon_def)
  have ns: "\<not> in_class False Space CHR ''r''" "\<not> in_class False Space CHR ''}''"
    by (simp_all add: is_space_def code_unit_def)
  have 1: "first False (Str ''{{'') (p, ''{{'' @ ?t2, cp) (Some CHR ''{'', ?t2, cp)"
    using first_Str[of "''{{''" p ?t2 cp] by simp
  have 2: "first False ws (Some CHR ''{'', ?t2, cp) (lastp (Some CHR ''{'') (lead c), ?t3, cp)"
    using ns(1) by (intro first_Star sp) simp_all
  have 3: "first False (Str ''ref('') (lastp (Some CHR ''{'') (lead c), ?t3, cp) (Some CHR ''('', ?t4, cp)"
    using first_Str[of "''ref(''" _ ?t4 cp] by simp
  have 4: "first False quote (Some CHR ''('', ?t4, cp) (Some ?q1, ?t5, cp)"
    by (rule first_Cls) (rule q)
  have "first False unquoted (Some ?q1, ?t5, cp) (lastp (Some ?q1) ?n, ?t6, cp)"
    using assms q by (intro first_Plus nq) (auto simp: call_ok_def canon_def)
  from first_Group[OF this, of 1]
  have 5: "first False (Group 1 unquoted) (Some ?q1, ?t5, cp) (lastp (Some ?q1) ?n, ?t6, ?cp)"
    by simp
  have 6: "first False quote (lastp (Some ?q1) ?n, ?t6, ?cp) (Some ?q2, ?t7, ?cp)"
    by (rule first_Cls) (rule q)
  have 7: "first False (Chr CHR '')'') (Some ?q2, ?t7, ?cp) (Some CHR '')'', ?t8, ?cp)"
    by (rule first_Chr) simp
  have 8: "first False ws (Some CHR '')'', ?t8, ?cp) (lastp (Some CHR '')'') (trail c), ?t9, ?cp)"
    using ns(2) by (intro first_Star sp) simp_all
  have 9: "first False (Str ''}}'') (lastp (Some CHR '')'') (trail c), ?t9, ?cp) (Some CHR ''}'', rest, ?cp)"
    using first_Str[of "''}}''" _ rest ?cp] by simp
  have "first False ref_re (p, ''{{'' @ ?t2, cp) (Some CHR ''}'', rest, ?cp)"
    unfolding ref_re_def Seqs.simps
    by (intro first_Seq[OF 1] first_Seq[OF 2] first_Seq[OF 3] first_Seq[OF 4] first_Seq[OF 5]
        first_Seq[OF 6] first_Seq[OF 7] first_Seq[OF 8] first_Seq[OF 9] first_Eps)
  then show ?thesis by (simp add: call_text_def)
qed


lemma matchAll_from_nonempty:
  "search ci r p xs \<noteq> None \<Longrightarrow> matchAll_from ci r p xs \<noteq> []"
  by (auto simp: matchAll_from.simps[of ci r p xs])

lemma refs_of_call:
  assumes "call_ok c"
  shows "\<exists>rs. parse_refs (pre @ call_text c @ post) = Inr rs \<and> rs \<noteq> []"
proof -
  have "search False ref_re None (pre @ call_text c @ post) \<noteq> None"
    by (rule first_search) (rule first_ref_call[OF assms])
  then have "matchAll False ref_re (pre @ call_text c @ post) \<noteq> []"
    unfolding matchAll_def by (rule matchAll_from_nonempty)
  with parse_refs_total[of "pre @ call_text c @ post"] show ?thesis by auto
qed

lemma staging_ref_fires:
  assumes "type m = staging" and "refs m \<noteq> []"
  shows "has_issue (detectAntiPatternsFromContent c m w) ''ref() in staging model'' high"
proof -
  have "has_issue (rule_staging_ref m) ''ref() in staging model'' high"
    using assms(2) by (simp add: rule_staging_ref_def staging_ref_issue_def has_issue_def)
  then have "has_issue (rule_staging (toLowerCase c) (split_lines c) m) ''ref() in staging model'' high"
    using assms(1) by (simp add: rule_staging_def)
  then show ?thesis by (simp add: detectAntiPatternsFromContent_def Let_def)
qed

subsection \<open>What a match begins with\<close>

lemma ms_Seq_nonempty:
  "ms ci (Seq a b) st \<noteq> [] \<Longrightarrow> \<exists>st1. st1 \<in> set (ms ci a st) \<and> ms ci b st1 \<noteq> []"
  by auto

lemma ms_Str_nonempty:
  "ms False (Seq (Str lit) r) (p, xs, cp) \<noteq> [] \<Longrightarrow>
     \<exists>t. xs = lit @ t \<and> ms False r (lastp p lit, t, cp) \<noteq> []"
proof (induction lit arbitrary: p xs)
  case Nil
  then show ?case by simp
next
  case (Cons c lit)
  from Cons.prems have "ms False (Seq (Chr c) (Seq (Str lit) r)) (p, xs, cp) \<noteq> []"
    using ms_Seq_Seq[of False "Chr c" "Str lit" r "(p, xs, cp)"] by simp
  then obtain xs' where xs: "xs = c # xs'" and
    "ms False (Seq (Str lit) r) (Some c, xs', cp) \<noteq> []"
    unfolding ms_Seq_Chr by (auto simp: canon_def split: list.splits if_splits)
  from Cons.IH[OF this(2)] xs show ?case by auto
qed

lemma ms_Star_Cls_results:
  "st1 \<in> set (ms ci (Star g (Cls k)) (p, xs, cp)) \<Longrightarrow>
     \<exists>zs. xs = zs @ fst (snd st1) \<and> (\<forall>c \<in> set zs. in_class ci k c)"
proof (induction xs arbitrary: p)
  case Nil
  have "ms ci (Star g (Cls k)) (p, [], cp) = [(p, [], cp)]"
    by (simp add: ms.simps(6))
  with Nil show ?case by simp
next
  case (Cons x xs)
  show ?case
  proof (cases "st1 = (p, x # xs, cp)")
    case True
    then show ?thesis by simp
  next
    case False
    with Cons.prems ms_Star_set[of ci g "Cls k" p "x # xs" cp]
    obtain st' where a: "st' \<in> set (ms ci (Cls k) (p, x # xs, reset (groups (Cls k)) cp))"
      and b: "st1 \<in> set (ms ci (Star g (Cls k)) st')"
      by blast
    from a have x: "in_class ci k x" and st': "st' = (Some x, xs, cp)"
      by (auto split: if_splits)
    from Cons.IH[OF b[unfolded st']] obtain zs where "xs = zs @ fst (snd st1)"
      "\<forall>c \<in> set zs. in_class ci k c" by blast
    with x have "x # xs = (x # zs) @ fst (snd st1) \<and> (\<forall>c \<in> set (x # zs). in_class ci k c)"
      by simp
    then show ?thesis by blast
  qed
qed

lemma search_first:
  "first ci r (p, xs, Map.empty) y \<Longrightarrow> search ci r p xs = Some (mk_match xs y)"
  by (cases xs) (auto simp: first_def)

lemma search_None:
  "(\<And>a b. xs = a @ b \<Longrightarrow> ms ci r (lastp p a, b, Map.empty) = []) \<Longrightarrow> search ci r p xs = None"
  using search_Some_ms[of ci r p xs] by (cases "search ci r p xs") auto

lemma call_text_nonempty: "call_text c \<noteq> []"
  by (simp add: call_text_def)

subsection \<open>Scanning a text for calls of ref\<close>

text \<open>
  A second reading of the refs, in the words of the claim and without the matcher, to
  compare with the pattern of the source. \<open>call_at s\<close> tells whether the text \<open>s\<close>
  begins with a call: the braces \<^verbatim>\<open>{{\<close>, white space, \<^verbatim>\<open>ref(\<close>, a quote, the name up to
  the next quote (not empty), that quote, \<^verbatim>\<open>)\<close>, white space, and the braces \<^verbatim>\<open>}}\<close>.
  It gives the name and the text after the call.
\<close>

definition is_quote :: "char \<Rightarrow> bool" where
  "is_quote c \<longleftrightarrow> c = sq \<or> c = dq"

definition call_at :: "string \<Rightarrow> (string \<times> string) option" where
  "call_at s =
     (if \<not> startsWith s ''{{'' then None
      else if \<not> startsWith (dropWhile is_space (drop 2 s)) ''ref('' then None
      else (case drop 4 (dropWhile is_space (drop 2 s)) of
              [] \<Rightarrow> None
            | q1 # s2 \<Rightarrow>
                if \<not> is_quote q1 then None
                else if takeWhile (\<lambda>c. \<not> is_quote c) s2 = [] then None
                else (case dropWhile (\<lambda>c. \<not> is_quote c) s2 of
                        [] \<Rightarrow> None
                      | q2 # s3 \<Rightarrow>
                          (case s3 of
                             [] \<Rightarrow> None
                           | y # s4 \<Rightarrow>
                               if y \<noteq> CHR '')'' then None
                               else if startsWith (dropWhile is_space s4) ''}}''
                                    then Some (takeWhile (\<lambda>c. \<not> is_quote c) s2,
                                               drop 2 (dropWhile is_space s4))
                                    else None))))"

lemma call_at_call_text:
  assumes "call_ok c"
  shows "call_at (call_text c @ rest) = Some (ref_name c, rest)"
proof -
  from assms have sp: "\<And>x. x \<in> set (lead c) \<Longrightarrow> is_space x"
    "\<And>x. x \<in> set (trail c) \<Longrightarrow> is_space x"
    and nq: "\<And>x. x \<in> set (ref_name c) \<Longrightarrow> \<not> is_quote x"
    and q: "is_quote (open_q c)" "is_quote (close_q c)"
    and ne: "ref_name c \<noteq> []"
    by (auto simp: call_ok_def list_all_iff is_quote_def)
  have ns: "\<not> is_space CHR ''r''" "\<not> is_space CHR ''}''"
    by (simp_all add: is_space_def code_unit_def)
  let ?t4 = "'')'' @ trail c @ ''}}'' @ rest"
  let ?t3 = "close_q c # ?t4"
  let ?t2 = "ref_name c @ ?t3"
  let ?t1 = "''ref('' @ open_q c # ?t2"
  have 1: "dropWhile is_space (lead c @ ?t1) = ?t1"
    using sp(1) ns(1) by simp
  have 2: "takeWhile (\<lambda>c. \<not> is_quote c) ?t2 = ref_name c"
    using nq q(2) by simp
  have 3: "dropWhile (\<lambda>c. \<not> is_quote c) ?t2 = ?t3"
    using nq q(2) by simp
  have 4: "dropWhile is_space (trail c @ ''}}'' @ rest) = ''}}'' @ rest"
    using sp(2) ns(2) by simp
  have "call_text c @ rest = ''{{'' @ lead c @ ?t1" by (simp add: call_text_def)
  then show ?thesis
    unfolding call_at_def using 1 2 3 4 q ne by simp
qed

lemma call_at_Some:
  assumes "call_at s = Some (nm, rest)"
  shows "\<exists>c. call_ok c \<and> ref_name c = nm \<and> s = call_text c @ rest"
proof -
  let ?P = "\<lambda>c. \<not> is_quote c"
  define s0 where "s0 = drop 2 s"
  define s1 where "s1 = dropWhile is_space s0"
  define t where "t = drop 4 s1"
  have eq: "call_at s =
     (if \<not> startsWith s ''{{'' then None
      else if \<not> startsWith s1 ''ref('' then None
      else (case t of
              [] \<Rightarrow> None
            | q1 # s2 \<Rightarrow>
                if \<not> is_quote q1 then None
                else if takeWhile ?P s2 = [] then None
                else (case dropWhile ?P s2 of
                        [] \<Rightarrow> None
                      | q2 # s3 \<Rightarrow>
                          (case s3 of
                             [] \<Rightarrow> None
                           | y # s4 \<Rightarrow>
                               if y \<noteq> CHR '')'' then None
                               else if startsWith (dropWhile is_space s4) ''}}''
                                    then Some (takeWhile ?P s2, drop 2 (dropWhile is_space s4))
                                    else None))))"
    by (simp add: call_at_def s0_def s1_def t_def)
  from assms have a: "startsWith s ''{{''" and b: "startsWith s1 ''ref(''"
    by (simp_all add: eq split: if_splits)
  from a have s: "s = ''{{'' @ s0" unfolding s0_def startsWith_append by auto
  from b have s1: "s1 = ''ref('' @ t" unfolding t_def startsWith_append by auto
  from assms a b obtain q1 s2 where t: "t = q1 # s2"
    by (cases t) (simp_all add: eq)
  from assms a b have q1: "is_quote q1" and ne: "takeWhile ?P s2 \<noteq> []"
    by (simp_all add: eq t split: if_splits)
  from assms a b q1 ne obtain q2 s3 where d: "dropWhile ?P s2 = q2 # s3"
    by (cases "dropWhile ?P s2") (simp_all add: eq t)
  from assms a b q1 ne obtain y s4 where s3: "s3 = y # s4"
    by (cases s3) (simp_all add: eq t d)
  from assms a b q1 ne have y: "y = CHR '')''"
    and e: "startsWith (dropWhile is_space s4) ''}}''"
    and nm: "nm = takeWhile ?P s2"
    and r: "rest = drop 2 (dropWhile is_space s4)"
    by (simp_all add: eq t d s3 split: if_splits)
  from d have q2: "is_quote q2"
    using hd_dropWhile[of ?P s2] by auto
  from e r have s5: "dropWhile is_space s4 = ''}}'' @ rest"
    unfolding startsWith_append by auto
  define c where "c = \<lparr>lead = takeWhile is_space s0, open_q = q1, ref_name = nm,
    close_q = q2, trail = takeWhile is_space s4\<rparr>"
  have ok: "call_ok c"
    using q1 q2 ne unfolding c_def call_ok_def nm
    by (auto simp: list_all_iff is_quote_def dest: set_takeWhileD)
  have "s0 = takeWhile is_space s0 @ s1" unfolding s1_def by simp
  moreover have "s2 = nm @ q2 # y # s4" unfolding nm d[symmetric] s3[symmetric] by simp
  moreover have "s4 = takeWhile is_space s4 @ ''}}'' @ rest"
    using s5 by (metis takeWhile_dropWhile_id)
  ultimately have "s = call_text c @ rest"
    using s s1 t y unfolding call_text_def c_def by simp
  with ok show ?thesis unfolding c_def by auto
qed

lemma call_at_iff:
  "call_at s = Some (nm, rest) \<longleftrightarrow> (\<exists>c. call_ok c \<and> ref_name c = nm \<and> s = call_text c @ rest)"
  using call_at_Some call_at_call_text by blast

lemma call_at_shorter: "call_at s = Some (nm, rest) \<Longrightarrow> length rest < length s"
  using call_at_Some[of s nm rest] call_text_nonempty by fastforce

text \<open>The scan goes from left to right: at a call it takes the name and goes on after
  the call, elsewhere it goes on one character further.\<close>

function scan_refs :: "string \<Rightarrow> string list" where
  "scan_refs s =
     (case call_at s of
        Some (nm, rest) \<Rightarrow> nm # scan_refs rest
      | None \<Rightarrow> (case s of [] \<Rightarrow> [] | x # xs \<Rightarrow> scan_refs xs))"
  by pat_completeness auto
termination
  by (relation "measure length") (auto dest: call_at_shorter)

declare scan_refs.simps [simp del]


subsection \<open>The ref pattern matches exactly at the calls\<close>

lemma ms_Group_results:
  "st1 \<in> set (ms ci (Group i r) (p, xs, cp)) \<Longrightarrow>
     \<exists>st0. st0 \<in> set (ms ci r (p, xs, cp)) \<and> fst (snd st1) = fst (snd st0)"
  by (force simp: split_def)

lemma ms_Plus_Cls_results:
  assumes "st1 \<in> set (ms ci (Plus g (Cls k)) (p, xs, cp))"
  shows "\<exists>zs. zs \<noteq> [] \<and> xs = zs @ fst (snd st1) \<and> (\<forall>c \<in> set zs. in_class ci k c)"
proof -
  from assms obtain st0 where 0: "st0 \<in> set (ms ci (Cls k) (p, xs, cp))"
    and 1: "st1 \<in> set (ms ci (Star g (Cls k)) st0)"
    by (auto simp: Plus_def)
  from 0 obtain x xs' where xs: "xs = x # xs'" and x: "in_class ci k x"
    and st0: "st0 = (Some x, xs', cp)"
    by (cases xs) (auto split: if_splits)
  from ms_Star_Cls_results[OF 1[unfolded st0]] obtain zs where
    "xs' = zs @ fst (snd st1)" "\<forall>c \<in> set zs. in_class ci k c" by blast
  with xs x have "x # zs \<noteq> [] \<and> xs = (x # zs) @ fst (snd st1) \<and>
      (\<forall>c \<in> set (x # zs). in_class ci k c)" by simp
  then show ?thesis by blast
qed

lemma ms_Cls_nonempty:
  "ms ci (Seq (Cls k) r) (p, xs, cp) \<noteq> [] \<Longrightarrow>
     \<exists>x t. xs = x # t \<and> in_class ci k x \<and> ms ci r (Some x, t, cp) \<noteq> []"
  unfolding ms_Seq_Cls by (cases xs) (simp_all split: if_splits)

lemma ms_Chr_nonempty:
  "ms False (Seq (Chr c) r) (p, xs, cp) \<noteq> [] \<Longrightarrow>
     \<exists>t. xs = c # t \<and> ms False r (Some c, t, cp) \<noteq> []"
  unfolding ms_Seq_Chr by (cases xs) (simp_all add: canon_def split: if_splits)

lemma ref_match_is_call:
  assumes "ms False ref_re (p, s, cp) \<noteq> []"
  shows "\<exists>c rest. call_ok c \<and> s = call_text c @ rest"
proof -
  let ?R8 = "Seq (Str ''}}'') Eps"
  let ?R7 = "Seq ws ?R8"
  let ?R6 = "Seq (Chr CHR '')'') ?R7"
  let ?R5 = "Seq quote ?R6"
  let ?R4 = "Seq (Group 1 unquoted) ?R5"
  let ?R3 = "Seq quote ?R4"
  let ?R2 = "Seq (Str ''ref('') ?R3"
  let ?R1 = "Seq ws ?R2"
  from assms have "ms False (Seq (Str ''{{'') ?R1) (p, s, cp) \<noteq> []"
    by (simp add: ref_re_def del: ms.simps(4))
  from ms_Str_nonempty[OF this] obtain t1 where s: "s = ''{{'' @ t1"
    and "ms False ?R1 (lastp p ''{{'', t1, cp) \<noteq> []" by blast
  from ms_Seq_nonempty[OF this(2)] obtain st1 where
    1: "st1 \<in> set (ms False ws (lastp p ''{{'', t1, cp))" and
    2: "ms False ?R2 st1 \<noteq> []" by blast
  from ms_Star_Cls_results[OF 1] obtain w1 where w1: "t1 = w1 @ fst (snd st1)"
    "\<forall>c \<in> set w1. in_class False Space c" by blast
  obtain p1 t2 cp1 where st1: "st1 = (p1, t2, cp1)" by (cases st1)
  from ms_Str_nonempty[OF 2[unfolded st1]] obtain t3 where t2: "t2 = ''ref('' @ t3"
    and "ms False ?R3 (lastp p1 ''ref('', t3, cp1) \<noteq> []" by blast
  from ms_Cls_nonempty[OF this(2)] obtain q1 t4 where t3: "t3 = q1 # t4"
    and q1: "in_class False (OneOf [sq, dq]) q1"
    and "ms False ?R4 (Some q1, t4, cp1) \<noteq> []" by blast
  from ms_Seq_nonempty[OF this(3)] obtain st5 where
    3: "st5 \<in> set (ms False (Group 1 unquoted) (Some q1, t4, cp1))" and
    4: "ms False ?R5 st5 \<noteq> []" by blast
  from ms_Group_results[OF 3] obtain st0 where
    "st0 \<in> set (ms False unquoted (Some q1, t4, cp1))" "fst (snd st5) = fst (snd st0)" by blast
  with ms_Plus_Cls_results[OF this(1)] obtain nm where nm: "nm \<noteq> []"
    "t4 = nm @ fst (snd st5)" "\<forall>c \<in> set nm. in_class False (NoneOf [sq, dq]) c" by auto
  obtain p5 t5 cp5 where st5: "st5 = (p5, t5, cp5)" by (cases st5)
  from ms_Cls_nonempty[OF 4[unfolded st5]] obtain q2 t6 where t5: "t5 = q2 # t6"
    and q2: "in_class False (OneOf [sq, dq]) q2"
    and "ms False ?R6 (Some q2, t6, cp5) \<noteq> []" by blast
  from ms_Chr_nonempty[OF this(3)] obtain t7 where t6: "t6 = CHR '')'' # t7"
    and "ms False ?R7 (Some CHR '')'', t7, cp5) \<noteq> []" by blast
  from ms_Seq_nonempty[OF this(2)] obtain st8 where
    5: "st8 \<in> set (ms False ws (Some CHR '')'', t7, cp5))" and
    6: "ms False ?R8 st8 \<noteq> []" by blast
  from ms_Star_Cls_results[OF 5] obtain w2 where w2: "t7 = w2 @ fst (snd st8)"
    "\<forall>c \<in> set w2. in_class False Space c" by blast
  obtain p8 t8 cp8 where st8: "st8 = (p8, t8, cp8)" by (cases st8)
  from ms_Str_nonempty[OF 6[unfolded st8]] obtain rest where t8: "t8 = ''}}'' @ rest" by blast
  define c where "c = \<lparr>lead = w1, open_q = q1, ref_name = nm, close_q = q2, trail = w2\<rparr>"
  have "call_ok c"
    using w1(2) w2(2) q1 q2 nm(1,3)
    by (auto simp: c_def call_ok_def list_all_iff canon_def)
  moreover have "s = call_text c @ rest"
    using s w1(1) st1 t2 t3 nm(2) st5 t5 t6 w2(1) st8 t8
    by (simp add: c_def call_text_def)
  ultimately show ?thesis by blast
qed

lemma call_at_None_no_match:
  assumes "call_at s = None"
  shows "ms False ref_re (p, s, cp) = []"
proof (rule ccontr)
  assume "ms False ref_re (p, s, cp) \<noteq> []"
  from ref_match_is_call[OF this] obtain c rest where "call_ok c" "s = call_text c @ rest"
    by blast
  with call_at_call_text[of c rest] assms show False by simp
qed

lemma matchAll_from_step:
  assumes "ms ci r (p, x # xs, Map.empty) = []"
  shows "matchAll_from ci r p (x # xs) = matchAll_from ci r (Some x) xs"
proof -
  from assms have "search ci r p (x # xs) = search ci r (Some x) xs" by simp
  then show ?thesis
    by (simp add: matchAll_from.simps[of ci r p "x # xs"] matchAll_from.simps[of ci r "Some x" xs])
qed

lemma collect_refs_scan:
  "collect (\<lambda>m. group_str m 1) (matchAll_from False ref_re p s) = Inr (scan_refs s)"
proof (induction s arbitrary: p rule: scan_refs.induct)
  case (1 s)
  show ?case
  proof (cases "call_at s")
    case None
    note no = call_at_None_no_match[OF None]
    show ?thesis
    proof (cases s)
      case Nil
      from no[of p Map.empty] Nil have "matchAll_from False ref_re p s = []"
        by (simp add: matchAll_from.simps[of False ref_re p "[]"])
      moreover from None Nil have "scan_refs s = []"
        by (simp add: scan_refs.simps[of "[]"])
      ultimately show ?thesis by simp
    next
      case (Cons x xs)
      from no[of p Map.empty] Cons
      have "matchAll_from False ref_re p s = matchAll_from False ref_re (Some x) xs"
        by (simp add: matchAll_from_step)
      moreover have "collect (\<lambda>m. group_str m 1) (matchAll_from False ref_re (Some x) xs) =
          Inr (scan_refs xs)"
        by (rule "1.IH"(1)[OF None Cons])
      moreover from None Cons have "scan_refs s = scan_refs xs"
        by (simp add: scan_refs.simps[of "x # xs"])
      ultimately show ?thesis by simp
    qed
  next
    case (Some a)
    obtain nm rest where a: "a = (nm, rest)" by (cases a)
    from call_at_Some[OF Some[unfolded a]] obtain c where c: "call_ok c" "ref_name c = nm"
      "s = call_text c @ rest" by blast
    define m where "m = mk_match s (Some CHR ''}'', rest, [1 \<mapsto> nm])"
    have "search False ref_re p s = Some m"
      unfolding m_def
      using first_ref_call[OF c(1), of p rest Map.empty] c(2,3) by (intro search_first) simp
    moreover have "m_text m = call_text c" "m_prev m = Some CHR ''}''" "m_rest m = rest"
      "m_groups m 1 = Some nm"
      by (simp_all add: m_def mk_match_def c(3))
    ultimately have "matchAll_from False ref_re p s =
        m # matchAll_from False ref_re (Some CHR ''}'') rest"
      by (simp add: matchAll_from.simps[of False ref_re p s] call_text_nonempty)
    moreover have "collect (\<lambda>m. group_str m 1) (matchAll_from False ref_re (Some CHR ''}'') rest) =
        Inr (scan_refs rest)"
      by (rule "1.IH"(2)[OF Some a[symmetric]])
    moreover from Some a have "scan_refs s = nm # scan_refs rest"
      by (simp add: scan_refs.simps[of s])
    moreover have "group_str m 1 = Inr nm"
      using \<open>m_groups m 1 = Some nm\<close> by (simp add: group_str_def)
    ultimately show ?thesis by simp
  qed
qed

lemma parse_refs_scan: "parse_refs c = Inr (scan_refs c)"
  unfolding parse_refs_def matchAll_def by (rule collect_refs_scan)


text \<open>Three texts with a call that is cut short, two calls that overlap, and a stray
  \<^verbatim>\<open>ref(\<close> before a call.\<close>

lemma refs_examples:
  "parse_refs ''select * from {{ ref('a') }'' = Inr []"
  "parse_refs ''{{ ref('x{{ ref(') }}') }}'' = Inr [''x{{ ref('']"
  "parse_refs ''-- see ref(x)\<newline>select * from {{ ref('a') }}'' = Inr [''a'']"
  by (simp_all add: parse_refs_def ref_re_def group_str_def re_eval)

subsection \<open>Texts without the constructs\<close>

lemma Seqs_Str_head: "Seqs (Str lit # rs) = Seq (Str lit) (Seqs rs)"
  by simp

lemma no_braces_no_match:
  assumes "\<not> str_includes c ''{{''"
  shows "search False (Seq (Str ''{{'') r) p c = None"
proof (rule search_None)
  fix a b assume ab: "c = a @ b"
  show "ms False (Seq (Str ''{{'') r) (lastp p a, b, Map.empty) = []"
  proof (rule ccontr)
    assume "ms False (Seq (Str ''{{'') r) (lastp p a, b, Map.empty) \<noteq> []"
    from ms_Str_nonempty[OF this] obtain t where "b = ''{{'' @ t" by blast
    with ab assms show False unfolding str_includes_iff by blast
  qed
qed

lemma no_braces:
  assumes "\<not> str_includes c ''{{''"
  shows "parse_config c = Inr (None, Map.empty)" and "parse_refs c = Inr []"
    and "parse_sources c = Inr []"
proof -
  have 1: "search False config_re None c = None" "search False ref_re None c = None"
    "search False source_re None c = None"
    unfolding config_re_def ref_re_def source_re_def Seqs_Str_head
    by (rule no_braces_no_match[OF assms])+
  from 1(1) show "parse_config c = Inr (None, Map.empty)"
    by (simp add: parse_config_def str_match_def)
  from 1(2) show "parse_refs c = Inr []"
    by (simp add: parse_refs_def matchAll_def matchAll_from.simps[of False ref_re None c])
  from 1(3) show "parse_sources c = Inr []"
    by (simp add: parse_sources_def matchAll_def matchAll_from.simps[of False source_re None c])
qed

text \<open>Under the \<^verbatim>\<open>i\<close> flag a literal of lower-case letters matches the text whose
  lower-cased form it is.\<close>

lemma canon_lower:
  assumes "code_unit c < 128" and "to_lower_char c = c" and "canon True x = canon True c"
  shows "to_lower_char x = c"
proof (cases "code_unit x < 128")
  case True
  with assms show ?thesis by (simp add: canon_def)
next
  case False
  with assms have "x = c" by (simp add: canon_def)
  with False assms(1) show ?thesis by simp
qed

lemma ms_Str_ci_nonempty:
  assumes "\<And>c. c \<in> set lit \<Longrightarrow> code_unit c < 128 \<and> to_lower_char c = c"
  shows "ms True (Seq (Str lit) r) (p, xs, cp) \<noteq> [] \<Longrightarrow> \<exists>u t. xs = u @ t \<and> toLowerCase u = lit"
  using assms
proof (induction lit arbitrary: p xs)
  case Nil
  then show ?case by (simp add: toLowerCase_def)
next
  case (Cons c lit)
  from Cons.prems(1) have "ms True (Seq (Seq (Chr c) (Str lit)) r) (p, xs, cp) \<noteq> []"
    unfolding Str.simps .
  then have 1: "ms True (Seq (Chr c) (Seq (Str lit) r)) (p, xs, cp) \<noteq> []"
    by (metis ms_Seq_Seq)
  then obtain x xs' where xs: "xs = x # xs'"
    unfolding ms_Seq_Chr by (cases xs) simp_all
  from 1 have x: "canon True x = canon True c"
    and 2: "ms True (Seq (Str lit) r) (Some x, xs', cp) \<noteq> []"
    unfolding ms_Seq_Chr xs list.case by (simp_all split: if_splits del: ms.simps(4))
  have "\<exists>u t. xs' = u @ t \<and> toLowerCase u = lit"
    by (rule Cons.IH[OF 2]) (simp add: Cons.prems(2))
  then obtain u t where ut: "xs' = u @ t" "toLowerCase u = lit" by blast
  have "code_unit c < 128" "to_lower_char c = c"
    using Cons.prems(2)[of c] by simp_all
  from canon_lower[OF this x] have "to_lower_char x = c" .
  with xs ut have "xs = (x # u) @ t \<and> toLowerCase (x # u) = c # lit"
    by (simp add: toLowerCase_def)
  then show ?case by blast
qed

lemma toLowerCase_append: "toLowerCase (a @ b) = toLowerCase a @ toLowerCase b"
  by (simp add: toLowerCase_def)

lemma no_select:
  assumes "\<not> str_includes (toLowerCase c) ''select''"
  shows "parse_columns c = Inr []"
proof -
  have "search True select_re None c = None"
  proof (rule search_None)
    fix a b assume ab: "c = a @ b"
    show "ms True select_re (lastp None a, b, Map.empty) = []"
    proof (rule ccontr)
      assume "ms True select_re (lastp None a, b, Map.empty) \<noteq> []"
      then have "ms True (Seq (Str ''select'') (Seqs [Plus True (Cls Space),
          Group 1 (Plus False (Cls AnyC)), Plus True (Cls Space), Str ''from'']))
          (lastp None a, b, Map.empty) \<noteq> []"
        by (simp add: select_re_def del: ms.simps(4))
      moreover have "\<And>c. c \<in> set ''select'' \<Longrightarrow> code_unit c < 128 \<and> to_lower_char c = c"
        by (auto simp: code_unit_def to_lower_char_def is_upper_def)
      ultimately obtain u t where "b = u @ t" "toLowerCase u = ''select''"
        using ms_Str_ci_nonempty[of "''select''"] by blast
      with ab have "toLowerCase c = toLowerCase a @ ''select'' @ toLowerCase t"
        by (simp add: toLowerCase_append)
      with assms show False unfolding str_includes_iff by blast
    qed
  qed
  then show ?thesis by (simp add: parse_columns_def str_match_def)
qed


lemma rule_lengths:
  "length (rule_select_star l ls) \<le> 1"
  "length (rule_staging l ls m) \<le> 2"
  "length (rule_incremental_key l m) \<le> 1"
  "length (rule_unbounded l) \<le> 1"
  "length (rule_hardcoded_date c ls) \<le> 1"
  "length (rule_distinct_join l) \<le> 1"
  "length (rule_cross_join l ls) \<le> 1"
  "length (rule_func_filter l) \<le> 1"
  "length (rule_snowflake l m w) \<le> 1"
  "length (rule_bigquery l w) \<le> 1"
  "length (rule_cte_count m) \<le> 1"
  by (simp_all add: rule_defs Let_def split: option.splits)

lemma detect_length: "length (detectAntiPatternsFromContent c m w) \<le> 12"
proof -
  let ?l = "toLowerCase c" and ?ls = "split_lines c"
  note r = rule_lengths
  have "length (detectAntiPatternsFromContent c m w) =
      length (rule_select_star ?l ?ls) + length (rule_staging ?l ?ls m)
      + length (rule_incremental_key ?l m) + length (rule_unbounded ?l)
      + length (rule_hardcoded_date c ?ls) + length (rule_distinct_join ?l)
      + length (rule_cross_join ?l ?ls) + length (rule_func_filter ?l)
      + length (rule_snowflake ?l m w) + length (rule_bigquery ?l w)
      + length (rule_cte_count m)"
    by (simp add: detectAntiPatternsFromContent_def Let_def)
  with r(1)[of ?l ?ls] r(2)[of ?l ?ls m] r(3)[of ?l m] r(4)[of ?l] r(5)[of c ?ls] r(6)[of ?l]
    r(7)[of ?l ?ls] r(8)[of ?l] r(9)[of ?l m w] r(10)[of ?l w] r(11)[of m]
  show ?thesis by linarith
qed

section \<open>The claims\<close>

subsection \<open>C1: the incremental orders scenario\<close>

text \<open>The text of the scenario, in two lines, for the file \<^verbatim>\<open>fct_orders.sql\<close>.\<close>

definition orders_text :: string where
  "orders_text = ''{{ config(materialized='incremental') }}\<newline>select * from {{ source('raw','orders') }}''"

lemma orders_lower: "toLowerCase orders_text = orders_text"
  by (simp add: orders_text_def toLowerCase_def char_eval)

lemma orders_lines:
  "split_lines orders_text =
     [''{{ config(materialized='incremental') }}'', ''select * from {{ source('raw','orders') }}'']"
  by (simp add: orders_text_def split_lines_def)

lemma orders_config:
  "parse_config orders_text =
     Inr (Some ''incremental'', [''materialized'' \<mapsto> JStr ''incremental''])"
  by (simp add: orders_text_def parse_config_def config_re_def parse_materialized_def
      materialized_re_def parse_kv_def kv_re_def group_str_def kv_key_def kv_value_def
      set_prop_def re_eval)

lemma orders_refs: "parse_refs orders_text = Inr []"
  by (simp add: orders_text_def parse_refs_def ref_re_def re_eval)

lemma orders_ctes: "count_ctes orders_text = 0"
  by (simp add: orders_text_def count_ctes_def with_re_def cte_re_def match_count_def re_eval)

lemma orders_date: "str_match False date_re orders_text = None"
  by (simp add: orders_text_def date_re_def date_body_def re_eval)

lemma orders_func:
  "str_match True where_func_re orders_text = None"
  "str_match True on_func_re orders_text = None"
  by (simp_all add: orders_text_def where_func_re_def on_func_re_def re_eval)

lemma orders_model:
  assumes "parseModel orders_text ''fct_orders.sql'' = Inr m"
  shows "type m = fact" and "refs m = []" and "materialization m = Some ''incremental''"
    and "config m ''unique_key'' = None" and "cteCount m = 0"
proof -
  note f = parseModel_fields[OF assms]
  from f(2) show "type m = fact" by (simp add: infer_type_def)
  from f(4) orders_refs show "refs m = []" by simp
  from f(3) orders_config have c: "materialization m = Some ''incremental''"
    "config m = [''materialized'' \<mapsto> JStr ''incremental'']" by simp_all
  from c(1) show "materialization m = Some ''incremental''" .
  from c(2) show "config m ''unique_key'' = None" by simp
  from f(8) orders_ctes show "cteCount m = 0" by simp
qed

lemma orders_detect:
  assumes "parseModel orders_text ''fct_orders.sql'' = Inr m"
  shows "detectAntiPatternsFromContent orders_text m w = [select_star_issue 2]"
proof -
  note m = orders_model[OF assms]
  have 1: "rule_select_star orders_text (split_lines orders_text) = [select_star_issue 2]"
    unfolding orders_lines
    by (simp add: rule_select_star_def orders_text_def line_of_def findIndex_def toLowerCase_def
        char_eval)
  have 2: "rule_staging orders_text (split_lines orders_text) m = []"
    by (simp add: rule_staging_def m)
  have 3: "rule_incremental_key orders_text m = []" "rule_unbounded orders_text = []"
    "rule_distinct_join orders_text = []"
    "rule_cross_join orders_text (split_lines orders_text) = []"
    by (simp_all add: rule_defs orders_text_def)
  have 4: "rule_hardcoded_date orders_text (split_lines orders_text) = []"
    by (simp add: rule_hardcoded_date_def orders_date)
  have 5: "rule_func_filter orders_text = []"
    by (simp add: rule_func_filter_def orders_func)
  have 6: "rule_snowflake orders_text m w = []" "rule_bigquery orders_text w = []"
    by (simp_all add: rule_defs orders_text_def)
  have 7: "rule_cte_count m = []"
    by (simp add: rule_cte_count_def m)
  show ?thesis
    by (simp add: detectAntiPatternsFromContent_def orders_lower 1 2 3 4 5 6 7)
qed

lemma orders_review:
  assumes "parseModel orders_text ''fct_orders.sql'' = Inr m"
  shows "score (reviewCode m orders_text w False) = 85"
    and "overall (reviewCode m orders_text w False) = comment"
  by (simp_all add: reviewCode_def Let_def orders_detect[OF assms] review_step_def
      review_issue_def select_star_issue_def verdict_of_def)

text \<open>
  C1, as the code has it. For the two-line text of the scenario and the file name
  \<^verbatim>\<open>fct_orders.sql\<close>, whatever the warehouse, the detector returns exactly one issue,
  "SELECT * in production" of severity high; the rule "Incremental without unique_key"
  looks for the text \<^verbatim>\<open>is_incremental()\<close>, which the scenario does not contain, so it
  does not fire; and \<^verbatim>\<open>reviewCode\<close> with \<^verbatim>\<open>strict = false\<close> returns the verdict
  \<^verbatim>\<open>comment\<close> and the score 85.
\<close>

theorem orders_scenario:
  "\<exists>m. parseModel orders_text ''fct_orders.sql'' = Inr m \<and>
     map (\<lambda>i. (pattern i, severity i)) (detectAntiPatternsFromContent orders_text m w) =
       [(''SELECT * in production'', high)] \<and>
     has_issue (detectAntiPatternsFromContent orders_text m w) ''SELECT * in production'' high \<and>
     \<not> has_issue (detectAntiPatternsFromContent orders_text m w)
         ''Incremental without unique_key'' critical \<and>
     overall (reviewCode m orders_text w False) = comment \<and>
     score (reviewCode m orders_text w False) = 85"
proof -
  obtain m where m: "parseModel orders_text ''fct_orders.sql'' = Inr m"
    using parseModel_total by blast
  have "detectAntiPatternsFromContent orders_text m w = [select_star_issue 2]"
    by (rule orders_detect[OF m])
  with m orders_review[OF m] show ?thesis
    by (intro exI[of _ m]) (simp add: select_star_issue_def has_issue_def)
qed

text \<open>
  C1 as stated fails: on the scenario (warehouse \<^verbatim>\<open>snowflake\<close>) no issue
  "Incremental without unique_key" is returned, the verdict is \<^verbatim>\<open>comment\<close> and not
  \<^verbatim>\<open>request_changes\<close>, and the score is above 75.
\<close>

theorem orders_scenario_counterexample:
  "case parseModel orders_text ''fct_orders.sql'' of
     Inl e \<Rightarrow> False
   | Inr m \<Rightarrow>
       \<not> has_issue (detectAntiPatternsFromContent orders_text m ''snowflake'')
           ''Incremental without unique_key'' critical \<and>
       overall (reviewCode m orders_text ''snowflake'' False) \<noteq> request_changes \<and>
       \<not> score (reviewCode m orders_text ''snowflake'' False) \<le> 75"
proof -
  obtain m where m: "parseModel orders_text ''fct_orders.sql'' = Inr m"
    using parseModel_total by blast
  show ?thesis
    by (simp add: m orders_detect[OF m] orders_review[OF m] select_star_issue_def has_issue_def)
qed

subsection \<open>C2: one more critical issue\<close>

text \<open>
  C2, as the code has it. When the issues of review B are those of review A and one more
  issue of severity critical, the score of B is the score of A less 25, but not below 0:
  \<open>score B = max 0 (score A - 25)\<close>. So \<open>score B \<le> score A - 25\<close> holds when the score
  of A is at least 25.
\<close>

theorem score_extra_critical:
  assumes "mset (issues (reviewCode mB cB wB sB)) =
             add_mset x (mset (issues (reviewCode mA cA wA sA)))"
    and "r_severity x = ''critical''"
  shows "score (reviewCode mB cB wB sB) = max 0 (score (reviewCode mA cA wA sA) - 25)"
proof -
  let ?f = "penalty_of_name \<circ> r_severity"
  let ?A = "issues (reviewCode mA cA wA sA)" and ?B = "issues (reviewCode mB cB wB sB)"
  have "sum_list (map ?f ?B) = sum_mset (image_mset ?f (mset ?B))"
    by (metis mset_map sum_mset_sum_list)
  also have "\<dots> = ?f x + sum_mset (image_mset ?f (mset ?A))"
    using assms(1) by simp
  also have "\<dots> = 25 + sum_list (map ?f ?A)"
    using assms(2) by (metis comp_apply mset_map sum_mset_sum_list penalty_of_name_def)
  finally have B: "sum_list (map ?f ?B) = 25 + sum_list (map ?f ?A)" .
  have "0 \<le> sum_list (map ?f ?A)"
    by (rule sum_list_nonneg) (auto simp: penalty_of_name_nonneg)
  then show ?thesis
    unfolding reviewCode_score_issues[of mB] reviewCode_score_issues[of mA] B by simp
qed


text \<open>
  C2 as stated fails where the score is clamped. Two staging models, reviewed for
  \<^verbatim>\<open>bigquery\<close> with \<^verbatim>\<open>strict\<close>: the second text has a \<^verbatim>\<open>cross join\<close> more, and its
  review has the issues of the first and "CROSS JOIN detected", of severity critical; the
  scores are 15 and 0, and 0 is not at most 15 - 25.
\<close>

definition inc_text :: string where
  "inc_text = ''select * from {{ ref('a') }}\<newline>where is_incremental() limit 9''"

definition inc_cross_text :: string where
  "inc_cross_text = ''select * from {{ ref('a') }} cross join\<newline>b where is_incremental() limit 9''"

lemma inc_lower:
  "toLowerCase inc_text = inc_text" "toLowerCase inc_cross_text = inc_cross_text"
  by (simp_all add: inc_text_def inc_cross_text_def toLowerCase_def char_eval)

lemma inc_lines:
  "split_lines inc_text = [''select * from {{ ref('a') }}'', ''where is_incremental() limit 9'']"
  "split_lines inc_cross_text =
     [''select * from {{ ref('a') }} cross join'', ''b where is_incremental() limit 9'']"
  by (simp_all add: inc_text_def inc_cross_text_def split_lines_def)

lemma inc_config:
  "parse_config inc_text = Inr (None, Map.empty)"
  "parse_config inc_cross_text = Inr (None, Map.empty)"
  by (simp_all add: inc_text_def inc_cross_text_def parse_config_def config_re_def re_eval)

lemma inc_refs: "parse_refs inc_text = Inr [''a'']" "parse_refs inc_cross_text = Inr [''a'']"
  by (simp_all add: inc_text_def inc_cross_text_def parse_refs_def ref_re_def group_str_def re_eval)

lemma inc_ctes: "count_ctes inc_text = 0" "count_ctes inc_cross_text = 0"
  by (simp_all add: inc_text_def inc_cross_text_def count_ctes_def with_re_def cte_re_def
      match_count_def re_eval)

lemma inc_date:
  "str_match False date_re inc_text = None" "str_match False date_re inc_cross_text = None"
  by (simp_all add: inc_text_def inc_cross_text_def date_re_def date_body_def re_eval)

lemma inc_func:
  "str_match True where_func_re inc_text = None"
  "str_match True on_func_re inc_text = None"
  "str_match True where_func_re inc_cross_text = None"
  "str_match True on_func_re inc_cross_text = None"
  by (simp_all add: inc_text_def inc_cross_text_def where_func_re_def on_func_re_def re_eval)

lemma inc_model:
  assumes "parseModel c ''stg_a'' = Inr m" and "c = inc_text \<or> c = inc_cross_text"
  shows "name m = ''stg_a''" and "type m = staging" and "refs m = [''a'']"
    and "materialization m = None" and "config m = Map.empty" and "cteCount m = 0"
proof -
  note f = parseModel_fields[OF assms(1)]
  from f(1) show "name m = ''stg_a''" .
  from f(2) show "type m = staging" by (simp add: infer_type_def)
  from f(4) assms(2) inc_refs show "refs m = [''a'']" by auto
  from f(3) assms(2) inc_config show "materialization m = None" "config m = Map.empty" by auto
  from f(8) assms(2) inc_ctes show "cteCount m = 0" by auto
qed

lemma inc_detect:
  assumes "parseModel inc_text ''stg_a'' = Inr m"
  shows "detectAntiPatternsFromContent inc_text m ''bigquery'' =
    [select_star_issue 1, staging_ref_issue, incremental_key_issue, unbounded_issue, bigquery_issue]"
proof -
  note m = inc_model[OF assms, simplified]
  have 1: "rule_select_star inc_text (split_lines inc_text) = [select_star_issue 1]"
    unfolding inc_lines
    by (simp add: rule_select_star_def inc_text_def line_of_def findIndex_def toLowerCase_def
        char_eval)
  have 2: "rule_staging inc_text (split_lines inc_text) m = [staging_ref_issue]"
    by (simp add: rule_staging_def rule_staging_join_def rule_staging_ref_def m inc_text_def)
  have 3: "rule_incremental_key inc_text m = [incremental_key_issue]"
    "rule_unbounded inc_text = [unbounded_issue]"
    "rule_distinct_join inc_text = []"
    "rule_cross_join inc_text (split_lines inc_text) = []"
    by (simp_all add: rule_defs inc_text_def m get_prop_def)
  have 4: "rule_hardcoded_date inc_text (split_lines inc_text) = []"
    by (simp add: rule_hardcoded_date_def inc_date)
  have 5: "rule_func_filter inc_text = []"
    by (simp add: rule_func_filter_def inc_func)
  have 6: "rule_snowflake inc_text m ''bigquery'' = []"
    "rule_bigquery inc_text ''bigquery'' = [bigquery_issue]"
    by (simp_all add: rule_defs inc_text_def)
  have 7: "rule_cte_count m = []"
    by (simp add: rule_cte_count_def m)
  show ?thesis
    by (simp add: detectAntiPatternsFromContent_def inc_lower 1 2 3 4 5 6 7)
qed

lemma inc_cross_detect:
  assumes "parseModel inc_cross_text ''stg_a'' = Inr m"
  shows "detectAntiPatternsFromContent inc_cross_text m ''bigquery'' =
    [select_star_issue 1, staging_ref_issue, incremental_key_issue, unbounded_issue,
     cross_join_issue 1, bigquery_issue]"
proof -
  note m = inc_model[OF assms, simplified]
  have 1: "rule_select_star inc_cross_text (split_lines inc_cross_text) = [select_star_issue 1]"
    unfolding inc_lines
    by (simp add: rule_select_star_def inc_cross_text_def line_of_def findIndex_def
        toLowerCase_def char_eval)
  have 2: "rule_staging inc_cross_text (split_lines inc_cross_text) m = [staging_ref_issue]"
    by (simp add: rule_staging_def rule_staging_join_def rule_staging_ref_def m
        inc_cross_text_def)
  have 3: "rule_incremental_key inc_cross_text m = [incremental_key_issue]"
    "rule_unbounded inc_cross_text = [unbounded_issue]"
    "rule_distinct_join inc_cross_text = []"
    by (simp_all add: rule_defs inc_cross_text_def m get_prop_def)
  have 4: "rule_hardcoded_date inc_cross_text (split_lines inc_cross_text) = []"
    by (simp add: rule_hardcoded_date_def inc_date)
  have 5: "rule_func_filter inc_cross_text = []"
    by (simp add: rule_func_filter_def inc_func)
  have 6: "rule_snowflake inc_cross_text m ''bigquery'' = []"
    "rule_bigquery inc_cross_text ''bigquery'' = [bigquery_issue]"
    by (simp_all add: rule_defs inc_cross_text_def)
  have 7: "rule_cte_count m = []"
    by (simp add: rule_cte_count_def m)
  have 8: "rule_cross_join inc_cross_text (split_lines inc_cross_text) = [cross_join_issue 1]"
    unfolding inc_lines
    by (simp add: rule_cross_join_def inc_cross_text_def line_of_def findIndex_def
        toLowerCase_def char_eval)
  show ?thesis
    by (simp add: detectAntiPatternsFromContent_def inc_lower 1 2 3 4 5 6 7 8)
qed

lemma inc_strict:
  "\<not> str_includes inc_text ''description''" "\<not> str_includes inc_cross_text ''description''"
  by (simp_all add: inc_text_def inc_cross_text_def)

lemma inc_reviews:
  assumes a: "parseModel inc_text ''stg_a'' = Inr mA"
    and b: "parseModel inc_cross_text ''stg_a'' = Inr mB"
  shows "issues (reviewCode mA inc_text ''bigquery'' True) =
           map review_issue [select_star_issue 1, staging_ref_issue, incremental_key_issue,
             unbounded_issue, bigquery_issue] @ [description_issue, naming_issue mA]"
    and "issues (reviewCode mB inc_cross_text ''bigquery'' True) =
           map review_issue [select_star_issue 1, staging_ref_issue, incremental_key_issue,
             unbounded_issue, cross_join_issue 1, bigquery_issue] @ [description_issue, naming_issue mA]"
    and "score (reviewCode mA inc_text ''bigquery'' True) = 15"
    and "score (reviewCode mB inc_cross_text ''bigquery'' True) = 0"
proof -
  note mA = inc_model[OF a, simplified] and mB = inc_model[OF b, simplified]
  have n: "naming_issue mB = naming_issue mA"
    by (simp add: naming_issue_def mA mB)
  show "issues (reviewCode mA inc_text ''bigquery'' True) =
           map review_issue [select_star_issue 1, staging_ref_issue, incremental_key_issue,
             unbounded_issue, bigquery_issue] @ [description_issue, naming_issue mA]"
    unfolding reviewCode_strict inc_detect[OF a] by (simp add: inc_strict mA)
  show "issues (reviewCode mB inc_cross_text ''bigquery'' True) =
           map review_issue [select_star_issue 1, staging_ref_issue, incremental_key_issue,
             unbounded_issue, cross_join_issue 1, bigquery_issue] @ [description_issue, naming_issue mA]"
    unfolding reviewCode_strict inc_cross_detect[OF b] by (simp add: inc_strict mB n)
  show "score (reviewCode mA inc_text ''bigquery'' True) = 15"
    unfolding reviewCode_strict inc_detect[OF a]
    by (simp add: inc_strict mA raw_score_def issue_defs)
  show "score (reviewCode mB inc_cross_text ''bigquery'' True) = 0"
    unfolding reviewCode_strict inc_cross_detect[OF b]
    by (simp add: inc_strict mB raw_score_def issue_defs)
qed

theorem score_extra_critical_counterexample:
  "case (parseModel inc_text ''stg_a'', parseModel inc_cross_text ''stg_a'') of
     (Inr mA, Inr mB) \<Rightarrow>
        mset (issues (reviewCode mB inc_cross_text ''bigquery'' True)) =
          add_mset (review_issue (cross_join_issue 1))
            (mset (issues (reviewCode mA inc_text ''bigquery'' True))) \<and>
        r_severity (review_issue (cross_join_issue 1)) = ''critical'' \<and>
        score (reviewCode mA inc_text ''bigquery'' True) = 15 \<and>
        score (reviewCode mB inc_cross_text ''bigquery'' True) = 0 \<and>
        \<not> score (reviewCode mB inc_cross_text ''bigquery'' True)
            \<le> score (reviewCode mA inc_text ''bigquery'' True) - 25
   | _ \<Rightarrow> False"
proof -
  obtain mA where a: "parseModel inc_text ''stg_a'' = Inr mA" using parseModel_total by blast
  obtain mB where b: "parseModel inc_cross_text ''stg_a'' = Inr mB" using parseModel_total by blast
  show ?thesis
    unfolding a b using inc_reviews[OF a b]
    by (simp add: review_issue_def cross_join_issue_def)
qed

theorem score_extra_critical_witness:
  "case (parseModel inc_text ''stg_a'', parseModel inc_cross_text ''stg_a'') of
     (Inr mA, Inr mB) \<Rightarrow>
        score (reviewCode mB inc_cross_text ''bigquery'' True) =
          max 0 (score (reviewCode mA inc_text ''bigquery'' True) - 25)
   | _ \<Rightarrow> False"
proof -
  obtain mA where a: "parseModel inc_text ''stg_a'' = Inr mA" using parseModel_total by blast
  obtain mB where b: "parseModel inc_cross_text ''stg_a'' = Inr mB" using parseModel_total by blast
  have 1: "mset (issues (reviewCode mB inc_cross_text ''bigquery'' True)) =
      add_mset (review_issue (cross_join_issue 1))
        (mset (issues (reviewCode mA inc_text ''bigquery'' True)))"
    unfolding inc_reviews(1,2)[OF a b] by simp
  have 2: "r_severity (review_issue (cross_join_issue 1)) = ''critical''"
    by (simp add: review_issue_def cross_join_issue_def)
  from score_extra_critical[OF 1 2] show ?thesis
    unfolding a b by simp
qed

subsection \<open>C3: the type of a model\<close>

text \<open>
  C3, as the code has it. For every file name, \<^verbatim>\<open>parseModel\<close> infers the type by
  testing the file name as it is given, with no change of case, in this order: the prefix
  \<^verbatim>\<open>stg_\<close> gives staging, else \<^verbatim>\<open>int_\<close> intermediate, else \<^verbatim>\<open>fct_\<close> fact, else
  \<^verbatim>\<open>dim_\<close> dimension, else the substring \<^verbatim>\<open>snapshot\<close> anywhere gives snapshot, else
  unknown; the first match wins, so \<^verbatim>\<open>stg_int_orders.sql\<close> is staging.
\<close>

theorem type_precedence:
  "(\<exists>m. parseModel content fileName = Inr m \<and>
      type m =
        (if take 4 fileName = ''stg_'' then staging
         else if take 4 fileName = ''int_'' then intermediate
         else if take 4 fileName = ''fct_'' then fact
         else if take 4 fileName = ''dim_'' then dimension
         else if (\<exists>a b. fileName = a @ ''snapshot'' @ b) then snapshot
         else unknown)) \<and>
   (\<exists>m. parseModel content ''stg_int_orders.sql'' = Inr m \<and> type m = staging)"
proof
  show "\<exists>m. parseModel content fileName = Inr m \<and>
      type m =
        (if take 4 fileName = ''stg_'' then staging
         else if take 4 fileName = ''int_'' then intermediate
         else if take 4 fileName = ''fct_'' then fact
         else if take 4 fileName = ''dim_'' then dimension
         else if (\<exists>a b. fileName = a @ ''snapshot'' @ b) then snapshot
         else unknown)"
    using parseModel_type[of content fileName] unfolding infer_type_spec .
  show "\<exists>m. parseModel content ''stg_int_orders.sql'' = Inr m \<and> type m = staging"
    using parseModel_type[of content "''stg_int_orders.sql''"] by (simp add: infer_type_def)
qed

text \<open>
  C3 as stated fails: the file name is not lower-cased, and \<^verbatim>\<open>STG_orders.sql\<close> is of
  type unknown, not staging.
\<close>

theorem type_lowercase_counterexample:
  "case parseModel ''select 1'' ''STG_orders.sql'' of
     Inl e \<Rightarrow> False
   | Inr m \<Rightarrow> type m = unknown \<and> type m \<noteq> staging"
proof -
  obtain m where "parseModel ''select 1'' ''STG_orders.sql'' = Inr m" "type m = infer_type ''STG_orders.sql''"
    using parseModel_type by blast
  then show ?thesis by (simp add: infer_type_def)
qed

subsection \<open>C4: no failure\<close>

text \<open>
  C4. For every text and file name \<^verbatim>\<open>parseModel\<close> returns a model: the matcher and the
  loops over its matches terminate (they are total functions, by their termination
  proofs), and no capture group that the code reads is ever \<^verbatim>\<open>undefined\<close>, so neither
  error of the model arises. Without a recognisable construct the fields are empty: a
  text without \<^verbatim>\<open>{{\<close> gives a null materialization, an empty config and no refs or
  sources; a text without \<^verbatim>\<open>select\<close> (in any case) gives no columns; and a file name
  with none of the prefixes and without \<^verbatim>\<open>snapshot\<close> gives the type unknown. The
  detector and \<^verbatim>\<open>reviewCode\<close> read no capture group but the whole match of the date
  pattern; they have no failing step, and are total functions of the model.
\<close>

theorem parseModel_never_fails:
  "\<exists>m. parseModel content fileName = Inr m \<and>
     (\<not> str_includes content ''{{'' \<longrightarrow>
        materialization m = None \<and> config m = Map.empty \<and> refs m = [] \<and> sources m = []) \<and>
     (\<not> str_includes (toLowerCase content) ''select'' \<longrightarrow> columns m = []) \<and>
     (\<not> startsWith fileName ''stg_'' \<and> \<not> startsWith fileName ''int_'' \<and>
      \<not> startsWith fileName ''fct_'' \<and> \<not> startsWith fileName ''dim_'' \<and>
      \<not> str_includes fileName ''snapshot'' \<longrightarrow> type m = unknown) \<and>
     length (detectAntiPatternsFromContent content m warehouse) \<le> 12 \<and>
     0 \<le> score (reviewCode m content warehouse strict) \<and>
     score (reviewCode m content warehouse strict) \<le> 100"
proof -
  obtain m where m: "parseModel content fileName = Inr m" using parseModel_total by blast
  note f = parseModel_fields[OF m]
  have 1: "\<not> str_includes content ''{{'' \<longrightarrow>
        materialization m = None \<and> config m = Map.empty \<and> refs m = [] \<and> sources m = []"
    using no_braces[of content] f(3,4,5) by auto
  have 2: "\<not> str_includes (toLowerCase content) ''select'' \<longrightarrow> columns m = []"
    using no_select[of content] f(6) by auto
  have 3: "\<not> startsWith fileName ''stg_'' \<and> \<not> startsWith fileName ''int_'' \<and>
      \<not> startsWith fileName ''fct_'' \<and> \<not> startsWith fileName ''dim_'' \<and>
      \<not> str_includes fileName ''snapshot'' \<longrightarrow> type m = unknown"
    using f(2) by (simp add: infer_type_def)
  have 4: "length (detectAntiPatternsFromContent content m warehouse) \<le> 12"
    by (rule detect_length)
  have 5: "0 \<le> score (reviewCode m content warehouse strict)"
    "score (reviewCode m content warehouse strict) \<le> 100"
    by (simp_all add: reviewCode_score_issues)
  show ?thesis by (intro exI[of _ m] conjI m 1 2 3 4 5)
qed

theorem parseModel_never_fails_witness:
  "\<exists>m. parseModel ''-- nothing to see here'' ''notes.sql'' = Inr m \<and>
     materialization m = None \<and> config m = Map.empty \<and> refs m = [] \<and> sources m = [] \<and>
     columns m = [] \<and> type m = unknown"
proof -
  have 1: "\<not> str_includes ''-- nothing to see here'' ''{{''" by simp
  have 2: "\<not> str_includes (toLowerCase ''-- nothing to see here'') ''select''"
    by (simp add: toLowerCase_def char_eval)
  have 3: "\<not> startsWith ''notes.sql'' ''stg_'' \<and> \<not> startsWith ''notes.sql'' ''int_'' \<and>
      \<not> startsWith ''notes.sql'' ''fct_'' \<and> \<not> startsWith ''notes.sql'' ''dim_'' \<and>
      \<not> str_includes ''notes.sql'' ''snapshot''" by simp
  from parseModel_never_fails[of "''-- nothing to see here''" "''notes.sql''" "''snowflake''" False]
    1 2 3 show ?thesis by blast
qed

subsection \<open>C5: the refs of a model\<close>

text \<open>
  C5, as the code has it. For every text, \<^verbatim>\<open>refs\<close> is what a scan of the text from left
  to right collects: where the text at the position begins with a call
  \<^verbatim>\<open>{{ ref('name') }}\<close> (the braces \<^verbatim>\<open>{{\<close>, white space or none, \<^verbatim>\<open>ref(\<close>, a single or
  double quote, a name that is not empty and holds no quote, a single or double quote,
  \<^verbatim>\<open>)\<close>, white space or none, the braces \<^verbatim>\<open>}}\<close>), the name is collected and the scan
  goes on after the call, so that calls do not overlap; elsewhere the scan goes on one
  character further and collects nothing. The names keep the order of appearance and
  none is dropped as a duplicate; for the text
  \<^verbatim>\<open>{{ ref('a') }} ... {{ ref('b') }} ... {{ ref('a') }}\<close> the refs are a, b and a.
\<close>

theorem refs_scan:
  "(\<exists>m. parseModel content fileName = Inr m \<and> refs m = scan_refs content) \<and>
   scan_refs s =
     (case call_at s of
        Some (name', after) \<Rightarrow> name' # scan_refs after
      | None \<Rightarrow> (case s of [] \<Rightarrow> [] | x # xs \<Rightarrow> scan_refs xs)) \<and>
   (call_at s = Some (nm, rest) \<longleftrightarrow>
      (\<exists>c. call_ok c \<and> ref_name c = nm \<and> s = call_text c @ rest)) \<and>
   (\<exists>m. parseModel ''{{ ref('a') }} ... {{ ref('b') }} ... {{ ref('a') }}'' fileName = Inr m \<and>
      refs m = [''a'', ''b'', ''a''])"
proof (intro conjI)
  obtain m where m: "parseModel content fileName = Inr m" using parseModel_total by blast
  from parseModel_fields(4)[OF m] have "refs m = scan_refs content"
    by (simp add: parse_refs_scan)
  with m show "\<exists>m. parseModel content fileName = Inr m \<and> refs m = scan_refs content"
    by blast
next
  show "scan_refs s =
     (case call_at s of
        Some (name', after) \<Rightarrow> name' # scan_refs after
      | None \<Rightarrow> (case s of [] \<Rightarrow> [] | x # xs \<Rightarrow> scan_refs xs))"
    by (rule scan_refs.simps)
next
  show "call_at s = Some (nm, rest) \<longleftrightarrow>
      (\<exists>c. call_ok c \<and> ref_name c = nm \<and> s = call_text c @ rest)"
    by (rule call_at_iff)
next
  let ?t = "''{{ ref('a') }} ... {{ ref('b') }} ... {{ ref('a') }}''"
  obtain m where m: "parseModel ?t fileName = Inr m" using parseModel_total by blast
  have "parse_refs ?t = Inr [''a'', ''b'', ''a'']"
    by (simp add: parse_refs_def ref_re_def group_str_def re_eval)
  with parseModel_fields(4)[OF m] have "refs m = [''a'', ''b'', ''a'']" by simp
  with m show "\<exists>m. parseModel ?t fileName = Inr m \<and> refs m = [''a'', ''b'', ''a'']"
    by blast
qed

text \<open>
  C5 as stated fails: in \<^verbatim>\<open>{{- ref('orders') -}}\<close> the text \<^verbatim>\<open>ref('orders')\<close> occurs,
  in single quotes, and \<^verbatim>\<open>refs\<close> is empty, the call not being alone between the
  braces.
\<close>

definition trimmed_ref_text :: string where
  "trimmed_ref_text = ''select * from {{- ref('orders') -}}''"

theorem refs_counterexample:
  "str_includes trimmed_ref_text ''ref('orders')'' \<and>
   (case parseModel trimmed_ref_text ''fct_orders.sql'' of
      Inl e \<Rightarrow> False
    | Inr m \<Rightarrow> refs m = [])"
proof -
  obtain m where m: "parseModel trimmed_ref_text ''fct_orders.sql'' = Inr m"
    using parseModel_total by blast
  have "parse_refs trimmed_ref_text = Inr []"
    by (simp add: trimmed_ref_text_def parse_refs_def ref_re_def re_eval)
  with parseModel_fields(4)[OF m] have "refs m = []" by simp
  moreover have "str_includes trimmed_ref_text ''ref('orders')''"
    by (simp add: trimmed_ref_text_def)
  ultimately show ?thesis by (simp add: m)
qed

subsection \<open>C6: a ref in a staging model\<close>

text \<open>
  C6. For every text, warehouse and model of type staging whose refs are not empty, the
  detector returns an issue "ref() in staging model" of severity high. In particular, for
  the file \<^verbatim>\<open>stg_customers.sql\<close> and any text that contains
  \<^verbatim>\<open>{{ ref('int_customers') }}\<close>, the detector returns this issue for the parsed model.
\<close>

theorem staging_ref_violation:
  "(type m = staging \<and> refs m \<noteq> [] \<longrightarrow>
      has_issue (detectAntiPatternsFromContent c m w) ''ref() in staging model'' high) \<and>
   (\<exists>m'. parseModel (pre @ ''{{ ref('int_customers') }}'' @ post) ''stg_customers.sql'' = Inr m' \<and>
      has_issue (detectAntiPatternsFromContent (pre @ ''{{ ref('int_customers') }}'' @ post) m' w)
        ''ref() in staging model'' high)"
proof
  show "type m = staging \<and> refs m \<noteq> [] \<longrightarrow>
      has_issue (detectAntiPatternsFromContent c m w) ''ref() in staging model'' high"
    using staging_ref_fires by blast
next
  let ?call = "\<lparr>lead = '' '', open_q = sq, ref_name = ''int_customers'', close_q = sq, trail = '' ''\<rparr>"
  let ?c = "pre @ ''{{ ref('int_customers') }}'' @ post"
  have ok: "call_ok ?call"
    by (simp add: call_ok_def is_space_def code_unit_def)
  have t: "call_text ?call = ''{{ ref('int_customers') }}''"
    by (simp add: call_text_def)
  obtain m' where m': "parseModel ?c ''stg_customers.sql'' = Inr m'"
    using parseModel_total by blast
  note f = parseModel_fields[OF m']
  from refs_of_call[OF ok, of pre post] f(4) have "refs m' \<noteq> []"
    unfolding t by auto
  moreover from f(2) have "type m' = staging" by (simp add: infer_type_def)
  ultimately have "has_issue (detectAntiPatternsFromContent ?c m' w) ''ref() in staging model'' high"
    by (intro staging_ref_fires)
  with m' show "\<exists>m'. parseModel ?c ''stg_customers.sql'' = Inr m' \<and>
      has_issue (detectAntiPatternsFromContent ?c m' w) ''ref() in staging model'' high"
    by blast
qed

theorem staging_ref_violation_witness:
  "has_issue
     (detectAntiPatternsFromContent ''select 1''
        \<lparr>name = ''stg_customers'', type = staging, materialization = None, config = Map.empty,
         refs = [''int_customers''], sources = [], columns = [], hasTests = False,
         cteCount = 0, lineCount = 1\<rparr> ''snowflake'')
     ''ref() in staging model'' high"
  using staging_ref_violation[of
      "\<lparr>name = ''stg_customers'', type = staging, materialization = None, config = Map.empty,
         refs = [''int_customers''], sources = [], columns = [], hasTests = False,
         cteCount = 0, lineCount = 1\<rparr>" "''select 1''" "''snowflake''" "[]" "[]"]
  by simp

subsection \<open>C7: the hardcoded date rule\<close>

text \<open>
  C7, as the code has it. The detector returns an issue "Hardcoded date literal" of
  severity medium exactly when the text contains a date of the form \<^verbatim>\<open>'20YY-MM-DD'\<close>:
  in single quotes, beginning with the digits 2 and 0, each other place a digit.
\<close>

theorem hardcoded_date:
  "has_issue (detectAntiPatternsFromContent c m w) ''Hardcoded date literal'' medium \<longleftrightarrow>
     (\<exists>a b. c = a @ b \<and> date_at b)"
  unfolding detect_date_iff date_match_iff ..

text \<open>
  C7 as stated fails: a text with the quoted date \<^verbatim>\<open>'1999-12-31'\<close>, which is a quoted
  YYYY-MM-DD literal, gives no such issue.
\<close>

definition old_date_text :: string where
  "old_date_text = ''select id from raw.orders where created_at > '1999-12-31' and id > 0''"

theorem hardcoded_date_counterexample:
  "case parseModel old_date_text ''orders.sql'' of
     Inl e \<Rightarrow> False
   | Inr m \<Rightarrow>
       \<not> has_issue (detectAntiPatternsFromContent old_date_text m ''snowflake'')
           ''Hardcoded date literal'' medium"
proof -
  obtain m where m: "parseModel old_date_text ''orders.sql'' = Inr m"
    using parseModel_total by blast
  have "str_match False date_re old_date_text = None"
    by (simp add: old_date_text_def date_re_def date_body_def re_eval)
  with m show ?thesis by (simp add: detect_date_iff)
qed

subsection \<open>C8: the strict checks\<close>

text \<open>
  C8. Without \<^verbatim>\<open>strict\<close>, the issues of a review are those of the detector and the
  score is 100 less their penalties, clamped to 0..100: no further check runs. With
  \<^verbatim>\<open>strict\<close>, two checks follow, each appending one issue of severity low and taking
  5 from the score before it is clamped: (a) when the text has no occurrence of
  \<^verbatim>\<open>description\<close>; (b) when the type is not unknown and the name does not start with
  the first three letters of the type's name and an underscore, which is \<^verbatim>\<open>fac_\<close> for a
  fact and \<^verbatim>\<open>sta_\<close> for a staging model.
\<close>

theorem strict_checks:
  "issues (reviewCode m c w False) = map review_issue (detectAntiPatternsFromContent c m w) \<and>
   score (reviewCode m c w False) =
     max 0 (min 100 (raw_score (detectAntiPatternsFromContent c m w))) \<and>
   issues (reviewCode m c w True) =
     map review_issue (detectAntiPatternsFromContent c m w)
     @ (if \<not> (\<exists>a b. c = a @ ''description'' @ b) then [description_issue] else [])
     @ (if type m \<noteq> unknown \<and> \<not> (\<exists>b. name m = take 3 (type_name (type m)) @ ''_'' @ b)
        then [naming_issue m] else []) \<and>
   score (reviewCode m c w True) =
     max 0 (min 100 (raw_score (detectAntiPatternsFromContent c m w)
       - (if \<not> (\<exists>a b. c = a @ ''description'' @ b) then 5 else 0)
       - (if type m \<noteq> unknown \<and> \<not> (\<exists>b. name m = take 3 (type_name (type m)) @ ''_'' @ b)
          then 5 else 0))) \<and>
   r_severity description_issue = ''low'' \<and> r_severity (naming_issue m) = ''low'' \<and>
   take 3 (type_name fact) @ ''_'' = ''fac_'' \<and> take 3 (type_name staging) @ ''_'' = ''sta_''"
proof -
  have a: "startsWith (name m) (take 3 (type_name (type m)) @ ''_'') \<longleftrightarrow>
      (\<exists>b. name m = take 3 (type_name (type m)) @ ''_'' @ b)"
    by (simp add: startsWith_append)
  show ?thesis
    unfolding reviewCode_nonstrict reviewCode_strict a str_includes_iff
    by (simp add: description_issue_def naming_issue_def)
qed

subsection \<open>C9: determinism\<close>

text \<open>
  C9 has no theorem. That \<^verbatim>\<open>parseModel\<close>, the detector and \<^verbatim>\<open>reviewCode\<close> return equal
  results on equal arguments is how the source is read here: each is a function of its
  arguments alone, the source creating its patterns anew on each call and reading no
  clock, random number or variable outside the call. Of a function of this logic the
  statement holds by reflexivity, whatever the function.
\<close>

subsection \<open>C10: the two-argument detector\<close>

text \<open>
  C10. The exported two-argument function \<^verbatim>\<open>detectAntiPatterns(model, warehouse)\<close>
  returns the empty issue list for every model and every warehouse; the rules are
  evaluated only by the three-argument \<^verbatim>\<open>detectAntiPatternsFromContent\<close>.
\<close>

theorem detectAntiPatterns_empty: "detectAntiPatterns model warehouse = []"
  by (simp add: detectAntiPatterns_def)

end
